theory Spec2Isabelle
  imports Main
begin

section \<open>Strings as Python sees them\<close>

text \<open>
  Strings are lists of characters with the code points 0 to 255 (ASCII and Latin-1).
  Whitespace and letter case follow Python's \<^verbatim>\<open>str.isspace\<close> and
  \<^verbatim>\<open>str.lower\<close> on that range: the whitespace characters are the code points 9 to
  13, 28 to 32, 133 (next line) and 160 (no-break space), and \<^verbatim>\<open>lower\<close> moves
  A..Z and the capital letters 192 to 222, the multiplication sign 215 apart, to the
  letter 32 code points further.
\<close>

definition isspace :: "char \<Rightarrow> bool" where
  "isspace c =
     (let n = (of_char c :: nat)
      in (9 \<le> n \<and> n \<le> 13) \<or> (28 \<le> n \<and> n \<le> 32) \<or> n = 133 \<or> n = 160)"

definition strip :: "string \<Rightarrow> string" where
  "strip s = rev (dropWhile isspace (rev (dropWhile isspace s)))"

definition lower_char :: "char \<Rightarrow> char" where
  "lower_char c =
     (let n = (of_char c :: nat)
      in if (65 \<le> n \<and> n \<le> 90) \<or> (192 \<le> n \<and> n \<le> 222 \<and> n \<noteq> 215)
         then char_of (n + 32) else c)"

definition lower :: "string \<Rightarrow> string" where
  "lower s = map lower_char s"

text \<open>\<^verbatim>\<open>s.split(",")\<close>: the pieces between commas, at least one piece.\<close>

fun split_comma :: "string \<Rightarrow> string list" where
  "split_comma [] = [[]]"
| "split_comma (c # cs) =
     (if c = CHR '','' then [] # split_comma cs
      else (case split_comma cs of [] \<Rightarrow> [[c]] | p # ps \<Rightarrow> (c # p) # ps))"

text \<open>\<^verbatim>\<open>[x.strip() for x in s.split(",") if x.strip()]\<close>\<close>

definition tokens :: "string \<Rightarrow> string list" where
  "tokens s = filter (\<lambda>x. x \<noteq> []) (map strip (split_comma s))"

text \<open>
  A CSV row is a mapping from column names to cell texts, \<open>None\<close> for a column the
  file does not have. The ColumnUpdater treats a cell that \<^verbatim>\<open>csv.DictReader\<close>
  left at \<^verbatim>\<open>None\<close> (a short line) like a missing column, so \<open>None\<close> stands
  for both there. \<open>cell\<close> is the test \<^verbatim>\<open>isinstance(v, str) and v.strip()\<close>
  that guards every optional column.
\<close>

type_synonym row = "string \<rightharpoonup> string"

definition cell :: "row \<Rightarrow> string \<Rightarrow> string option" where
  "cell r k = (case r k of None \<Rightarrow> None | Some v \<Rightarrow> if strip v = [] then None else Some v)"

definition or_empty :: "string option \<Rightarrow> string" where
  "or_empty v = (case v of None \<Rightarrow> [] | Some s \<Rightarrow> s)"

section \<open>Dates\<close>

subsection \<open>The library: \<^verbatim>\<open>datetime.strptime\<close> and \<^verbatim>\<open>strftime\<close>\<close>

text \<open>
  A calendar date is (year, month, day). \<^verbatim>\<open>datetime\<close> only holds dates of the
  proleptic Gregorian calendar with years 1 to 9999.
\<close>

type_synonym date = "nat \<times> nat \<times> nat"

definition is_leap :: "nat \<Rightarrow> bool" where
  "is_leap y = (y mod 4 = 0 \<and> (y mod 100 \<noteq> 0 \<or> y mod 400 = 0))"

definition days_in_month :: "nat \<Rightarrow> nat \<Rightarrow> nat" where
  "days_in_month y m =
     (if m = 2 then (if is_leap y then 29 else 28)
      else if m = 4 \<or> m = 6 \<or> m = 9 \<or> m = 11 then 30 else 31)"

fun valid_date :: "date \<Rightarrow> bool" where
  "valid_date (y, m, d) =
     (1 \<le> y \<and> y \<le> 9999 \<and> 1 \<le> m \<and> m \<le> 12 \<and> 1 \<le> d \<and> d \<le> days_in_month y m)"

definition digits :: string where
  "digits = ''0123456789''"

definition is_digit :: "char \<Rightarrow> bool" where
  "is_digit c = (c \<in> set digits)"

fun index_of :: "'a \<Rightarrow> 'a list \<Rightarrow> nat" where
  "index_of x [] = 0"
| "index_of x (y # ys) = (if x = y then 0 else Suc (index_of x ys))"

definition digit_val :: "char \<Rightarrow> nat" where
  "digit_val c = index_of c digits"

definition digit :: "nat \<Rightarrow> char" where
  "digit n = digits ! (n mod 10)"

text \<open>
  A format string is compiled as \<^verbatim>\<open>_strptime.TimeRE.pattern\<close> does: a run of
  whitespace becomes \<^verbatim>\<open>\s+\<close>, \<^verbatim>\<open>%x\<close> becomes the pattern of the directive
  and every other character stands for itself. Only the five directives the script
  uses are known; any other one makes \<^verbatim>\<open>strptime\<close> raise, so it never matches.
\<close>

datatype fitem = DY | Dm | Dd | Db | DB | Ws | Lit char | Bad

fun compile_format :: "string \<Rightarrow> fitem list" where
  "compile_format [] = []"
| "compile_format [c] = (if c = CHR ''%'' then [Bad] else if isspace c then [Ws] else [Lit c])"
| "compile_format (c # d # cs) =
     (if c = CHR ''%'' then
        (if d = CHR ''Y'' then DY else if d = CHR ''m'' then Dm else if d = CHR ''d'' then Dd
         else if d = CHR ''b'' then Db else if d = CHR ''B'' then DB else Bad) # compile_format cs
      else if isspace c then
        (case compile_format (d # cs) of Ws # r \<Rightarrow> Ws # r | r \<Rightarrow> Ws # r)
      else Lit c # compile_format (d # cs))"

text \<open>
  The month names of the C locale, lower-cased, in the order the regular expression
  tries them: \<^verbatim>\<open>__seqToRE\<close> sorts the names by decreasing length and keeps
  the calendar order among names of one length.
\<close>

definition a_month :: "(string \<times> nat) list" where
  "a_month = [(''jan'', 1), (''feb'', 2), (''mar'', 3), (''apr'', 4), (''may'', 5), (''jun'', 6),
              (''jul'', 7), (''aug'', 8), (''sep'', 9), (''oct'', 10), (''nov'', 11), (''dec'', 12)]"

definition f_month :: "(string \<times> nat) list" where
  "f_month = [(''september'', 9), (''february'', 2), (''november'', 11), (''december'', 12),
              (''january'', 1), (''october'', 10), (''august'', 8), (''march'', 3), (''april'', 4),
              (''june'', 6), (''july'', 7), (''may'', 5)]"

text \<open>
  The alternatives of one pattern on an input, in the order the backtracking matcher
  tries them: the value captured (if the pattern is a group) and the input left.
  \<^verbatim>\<open>%Y\<close> is \<^verbatim>\<open>\d\d\d\d\<close>, \<^verbatim>\<open>%m\<close> is \<^verbatim>\<open>1[0-2]|0[1-9]|[1-9]\<close>,
  \<^verbatim>\<open>%d\<close> is \<^verbatim>\<open>3[0-1]|[1-2]\d|0[1-9]|[1-9]| [1-9]\<close>; the expression is compiled
  with \<^verbatim>\<open>IGNORECASE\<close>.
\<close>

definition name_alts :: "(string \<times> nat) list \<Rightarrow> string \<Rightarrow> (nat \<times> string) list" where
  "name_alts names s =
     map (\<lambda>(n, v). (v, drop (length n) s))
         (filter (\<lambda>(n, v). lower (take (length n) s) = n) names)"

definition nonzero_digit :: "char \<Rightarrow> bool" where
  "nonzero_digit c = (is_digit c \<and> c \<noteq> CHR ''0'')"

definition two :: "string \<Rightarrow> (char \<Rightarrow> bool) \<Rightarrow> (char \<Rightarrow> bool) \<Rightarrow> (nat \<times> string) list" where
  "two s p q =
     (case s of
        a # b # r \<Rightarrow> if p a \<and> q b then [(10 * digit_val a + digit_val b, r)] else []
      | _ \<Rightarrow> [])"

definition one :: "string \<Rightarrow> (nat \<times> string) list" where
  "one s = (case s of a # r \<Rightarrow> if nonzero_digit a then [(digit_val a, r)] else [] | _ \<Rightarrow> [])"

definition year_alts :: "string \<Rightarrow> (nat \<times> string) list" where
  "year_alts s =
     (case s of
        a # b # c # d # r \<Rightarrow>
          if is_digit a \<and> is_digit b \<and> is_digit c \<and> is_digit d
          then [(1000 * digit_val a + 100 * digit_val b + 10 * digit_val c + digit_val d, r)]
          else []
      | _ \<Rightarrow> [])"

definition month_alts :: "string \<Rightarrow> (nat \<times> string) list" where
  "month_alts s =
     two s (\<lambda>a. a = CHR ''1'') (\<lambda>b. b \<in> set ''012'')
     @ two s (\<lambda>a. a = CHR ''0'') nonzero_digit
     @ one s"

definition day_alts :: "string \<Rightarrow> (nat \<times> string) list" where
  "day_alts s =
     two s (\<lambda>a. a = CHR ''3'') (\<lambda>b. b \<in> set ''01'')
     @ two s (\<lambda>a. a \<in> set ''12'') is_digit
     @ two s (\<lambda>a. a = CHR ''0'') nonzero_digit
     @ one s
     @ (case s of a # r \<Rightarrow> if a = CHR '' '' then one r else [] | _ \<Rightarrow> [])"

text \<open>\<^verbatim>\<open>\s+\<close> is greedy: the longest run of whitespace first, then shorter ones.\<close>

definition ws_alts :: "string \<Rightarrow> string list" where
  "ws_alts s = map (\<lambda>k. drop k s) (rev [1 ..< Suc (length (takeWhile isspace s))])"

fun set_field :: "fitem \<Rightarrow> nat \<Rightarrow> date \<Rightarrow> date" where
  "set_field DY v (y, m, d) = (v, m, d)"
| "set_field Dd v (y, m, d) = (y, m, v)"
| "set_field it v (y, m, d) = (y, v, d)"

fun alts :: "fitem \<Rightarrow> string \<Rightarrow> date \<Rightarrow> (date \<times> string) list" where
  "alts DY s acc = map (\<lambda>(v, r). (set_field DY v acc, r)) (year_alts s)"
| "alts Dm s acc = map (\<lambda>(v, r). (set_field Dm v acc, r)) (month_alts s)"
| "alts Dd s acc = map (\<lambda>(v, r). (set_field Dd v acc, r)) (day_alts s)"
| "alts Db s acc = map (\<lambda>(v, r). (set_field Db v acc, r)) (name_alts a_month s)"
| "alts DB s acc = map (\<lambda>(v, r). (set_field DB v acc, r)) (name_alts f_month s)"
| "alts Ws s acc = map (\<lambda>r. (acc, r)) (ws_alts s)"
| "alts (Lit c) s acc =
     (case s of a # r \<Rightarrow> if lower_char a = lower_char c then [(acc, r)] else [] | _ \<Rightarrow> [])"
| "alts Bad s acc = []"

text \<open>The first alternative, in order, for which the rest of the search succeeds.\<close>

fun first_some :: "('a \<Rightarrow> 'b option) \<Rightarrow> 'a list \<Rightarrow> 'b option" where
  "first_some f [] = None"
| "first_some f (x # xs) = (case f x of Some y \<Rightarrow> Some y | None \<Rightarrow> first_some f xs)"

text \<open>
  \<^verbatim>\<open>format_regex.match(data_string)\<close>: the backtracking search for the first way
  to match the whole pattern on a prefix of the input.
\<close>

fun re_match :: "fitem list \<Rightarrow> string \<Rightarrow> date \<Rightarrow> (date \<times> string) option" where
  "re_match [] s acc = Some (acc, s)"
| "re_match (it # its) s acc = first_some (\<lambda>(acc', r). re_match its r acc') (alts it s acc)"

text \<open>
  \<^verbatim>\<open>datetime.strptime(s, f)\<close>, with \<open>None\<close> for \<^verbatim>\<open>ValueError\<close>: the match
  must use up the input (else "unconverted data remains"), and the fields, 1900-01-01
  where the format has none, must be a date.
\<close>

definition strptime :: "string \<Rightarrow> string \<Rightarrow> date option" where
  "strptime s f =
     (case re_match (compile_format f) s (1900, 1, 1) of
        None \<Rightarrow> None
      | Some (dt, r) \<Rightarrow> if r = [] \<and> valid_date dt then Some dt else None)"

text \<open>
  What the scripts read of the library and of the process environment:
  \<^verbatim>\<open>datetime.fromisoformat\<close>, which differs between versions of the library, with
  \<open>None\<close> for the exception it raises; whether \<^verbatim>\<open>strftime\<close> zero-pads the year of
  \<^verbatim>\<open>%Y\<close>; and the variable \<^verbatim>\<open>EPIC_LINK_FIELD\<close> (with its default already
  applied). CPython hands \<^verbatim>\<open>%Y\<close> to the \<^verbatim>\<open>strftime\<close> of the C library: on
  Windows and macOS, and on every platform from the release on that pads the year
  itself, the year has four digits (0001 .. 9999); with glibc before that release it is
  the plain decimal numeral of the year (1 .. 9999).
\<close>

record pyenv =
  fromisoformat :: "string \<Rightarrow> date option"
  pads_year :: bool
  epic_link_field :: string

text \<open>\<^verbatim>\<open>dt.strftime("%Y-%m-%d")\<close> for a date of the calendar.\<close>

definition pad2 :: "nat \<Rightarrow> string" where
  "pad2 n = [digit (n div 10), digit n]"

definition pad4 :: "nat \<Rightarrow> string" where
  "pad4 n = [digit (n div 1000), digit (n div 100), digit (n div 10), digit n]"

fun strftime :: "bool \<Rightarrow> date \<Rightarrow> string" where
  "strftime pads (y, m, d) =
     (if pads then pad4 y else dropWhile (\<lambda>c. c = CHR ''0'') (pad4 y))
     @ ''-'' @ pad2 m @ ''-'' @ pad2 d"

subsection \<open>\<^verbatim>\<open>normalize_date\<close>\<close>

definition fmts :: "string list" where
  "fmts = [''%Y-%m-%d'', ''%d/%m/%Y'', ''%d-%m-%Y'', ''%m/%d/%Y'', ''%m-%d-%Y'',
           ''%d %b %Y'', ''%d %B %Y'', ''%b %d %Y'', ''%B %d %Y'',
           ''%Y/%m/%d'']"

text \<open>The \<^verbatim>\<open>for f in fmts\<close> loop: the first format that parses wins.\<close>

fun try_formats :: "string \<Rightarrow> string list \<Rightarrow> date option" where
  "try_formats s [] = None"
| "try_formats s (f # fs) =
     (case strptime s f of Some dt \<Rightarrow> Some dt | None \<Rightarrow> try_formats s fs)"

definition normalize_date :: "pyenv \<Rightarrow> string \<Rightarrow> string option" where
  "normalize_date env s =
     (if s = [] \<or> strip s = [] \<or> lower (strip s) \<in> set [''nan'', ''none'', ''null''] then None
      else (case try_formats (strip s) fmts of
              Some dt \<Rightarrow> Some (strftime (pads_year env) dt)
            | None \<Rightarrow>
                (case fromisoformat env (strip s) of
                   Some dt \<Rightarrow> Some (strftime (pads_year env) dt)
                 | None \<Rightarrow> None)))"

section \<open>The issue tracker seen from the scripts\<close>

text \<open>
  Field values of an issue payload, as the scripts build them: a plain string, a
  \<^verbatim>\<open>{"name": ..}\<close>, \<^verbatim>\<open>{"key": ..}\<close> or \<^verbatim>\<open>{"accountId": ..}\<close>
  reference, a list of strings, a list of \<^verbatim>\<open>{"id": ..}\<close> references, and the
  rich-text document of \<^verbatim>\<open>to_adf\<close>. A payload is a Python dict: an association
  list in insertion order whose keys are distinct.
\<close>

datatype fval =
    FStr string
  | FName string
  | FKey string
  | FAccount string
  | FStrs "string list"
  | FIds "string list"
  | FDoc string

type_synonym fields = "(string \<times> fval) list"

fun put_field :: "string \<Rightarrow> fval \<Rightarrow> fields \<Rightarrow> fields" where
  "put_field k v [] = [(k, v)]"
| "put_field k v ((k', v') # fs) = (if k = k' then (k, v) # fs else (k', v') # put_field k v fs)"

fun get_field :: "fields \<Rightarrow> string \<Rightarrow> fval option" where
  "get_field [] k = None"
| "get_field ((k', v) # fs) k = (if k = k' then Some v else get_field fs k)"

text \<open>Every remote call the three scripts can issue.\<close>

datatype call =
    GetProject string
  | Search string nat "string list"
  | UserSearch string
  | ListVersions string
  | CreateVersion string string
  | ListComponents string
  | CreateComponent string string
  | UpdateIssue string fields
  | CreateLink string string
  | CreateIssue fields
  | SearchPage string nat nat string
  | DeleteIssue string

record issue =
  issue_key :: string
  issue_summary :: string

record entity =
  ent_name :: string
  ent_id :: string

text \<open>
  The body of a reply, as far as the scripts read it. \<open>JNone\<close> is a reply without a
  body (\<^verbatim>\<open>r.text\<close> is empty) and \<open>JText\<close> a body that is not JSON: on both
  \<^verbatim>\<open>r.json()\<close> raises, with requests 2.27 and later a
  \<^verbatim>\<open>requests.exceptions.JSONDecodeError\<close>, which is a \<^verbatim>\<open>RequestException\<close>.
  \<open>JEmpty\<close> is an empty JSON container.
\<close>

datatype body =
    JNone
  | JText
  | JEmpty
  | JIssues "issue list"
  | JUsers "string list"
  | JEntities "entity list"
  | JEntity entity
  | JProject string
  | JKey string

text \<open>
  One HTTP exchange either raises inside the \<^verbatim>\<open>requests\<close> session (a
  \<^verbatim>\<open>RequestException\<close>: no connection, time-out) or returns a status code and a
  body. The tracker is any deterministic state machine answering calls.
\<close>

datatype reply = Raised | Reply nat body

type_synonym 's tracker = "'s \<Rightarrow> call \<Rightarrow> reply \<times> 's"

datatype error =
    RequestException call
  | RuntimeError call nat
  | BadBody call
  | KeyError string
  | SystemExit string

definition is_link :: "call \<Rightarrow> bool" where
  "is_link c = (case c of CreateLink a b \<Rightarrow> True | _ \<Rightarrow> False)"

definition is_primary :: "call \<Rightarrow> bool" where
  "is_primary c = (case c of UpdateIssue k f \<Rightarrow> True | CreateIssue f \<Rightarrow> True | _ \<Rightarrow> False)"

definition is_mutating :: "call \<Rightarrow> bool" where
  "is_mutating c = (case c of
       UpdateIssue k f \<Rightarrow> True | CreateIssue f \<Rightarrow> True | CreateLink a b \<Rightarrow> True
     | CreateComponent n p \<Rightarrow> True | CreateVersion n p \<Rightarrow> True | DeleteIssue k \<Rightarrow> True
     | _ \<Rightarrow> False)"

section \<open>ColumnUpdater.py\<close>

subsection \<open>The \<^verbatim>\<open>Jira\<close> class\<close>

text \<open>
  The object's mutable state: the remote tracker, the calls sent so far (oldest first)
  and the three caches.
\<close>

record 's jira =
  remote :: 's
  trace :: "call list"
  user_cache :: "string \<rightharpoonup> string option"
  version_cache :: "string \<rightharpoonup> (string \<rightharpoonup> entity)"
  component_cache :: "string \<rightharpoonup> (string \<rightharpoonup> entity)"

definition new_jira :: "'s \<Rightarrow> 's jira" where
  "new_jira s = \<lparr>remote = s, trace = [], user_cache = Map.empty,
                 version_cache = Map.empty, component_cache = Map.empty\<rparr>"

text \<open>\<^verbatim>\<open>Response.ok\<close>: the status is not a 4xx or 5xx.\<close>

definition ok :: "nat \<Rightarrow> bool" where
  "ok code = (\<not> (400 \<le> code \<and> code < 600))"

text \<open>
  \<^verbatim>\<open>Jira.get\<close>, \<^verbatim>\<open>Jira.post\<close> and \<^verbatim>\<open>Jira.put\<close>: one exchange, never
  repeated; \<^verbatim>\<open>_check\<close> raises \<^verbatim>\<open>RuntimeError\<close> on a status that is not ok.
\<close>

definition request :: "'s tracker \<Rightarrow> call \<Rightarrow> 's jira \<Rightarrow> (error + body) \<times> 's jira" where
  "request rsp c j =
     (case rsp (remote j) c of (r, s') \<Rightarrow>
        (let j' = j\<lparr>remote := s', trace := trace j @ [c]\<rparr> in
         case r of
           Raised \<Rightarrow> (Inl (RequestException c), j')
         | Reply code b \<Rightarrow> if ok code then (Inr b, j') else (Inl (RuntimeError c code), j')))"

definition dq :: char where
  "dq = CHR 0x22"

definition search_jql :: "string \<Rightarrow> string \<Rightarrow> string" where
  "search_jql project_key summary =
     ''project = '' @ [dq] @ project_key @ [dq] @ '' AND summary ~ '' @ [dq, dq] @ summary
       @ [dq, dq] @ '' ORDER BY created DESC''"

definition search_call :: "string \<Rightarrow> string \<Rightarrow> call" where
  "search_call project_key summary =
     Search (search_jql project_key summary) 5 [''summary'', ''issuetype'']"

text \<open>The \<^verbatim>\<open>for it in issues\<close> loop of \<^verbatim>\<open>search_issue_by_summary\<close>.\<close>

fun exact_match :: "string \<Rightarrow> issue list \<Rightarrow> string option" where
  "exact_match summary [] = None"
| "exact_match summary (it # issues) =
     (if lower (strip (issue_summary it)) = lower (strip summary) then Some (issue_key it)
      else exact_match summary issues)"

definition select_issue :: "string \<Rightarrow> issue list \<Rightarrow> string option" where
  "select_issue summary issues =
     (case exact_match summary issues of
        Some k \<Rightarrow> Some k
      | None \<Rightarrow> (case issues of [] \<Rightarrow> None | it # _ \<Rightarrow> Some (issue_key it)))"

definition search_issue_by_summary ::
  "'s tracker \<Rightarrow> string \<Rightarrow> string \<Rightarrow> 's jira \<Rightarrow> (error + string option) \<times> 's jira" where
  "search_issue_by_summary rsp project_key summary j =
     (case request rsp (search_call project_key summary) j of
        (Inl e, j') \<Rightarrow> (Inl e, j')
      | (Inr b, j') \<Rightarrow>
          (case b of
             JIssues issues \<Rightarrow> (Inr (select_issue summary issues), j')
           | JEmpty \<Rightarrow> (Inr None, j')
           | _ \<Rightarrow> (Inl (BadBody (search_call project_key summary)), j')))"

text \<open>Sequencing of calls that may raise: the first exception ends the sequence.\<close>

definition and_then ::
  "('st \<Rightarrow> (error + 'a) \<times> 'st) \<Rightarrow> ('a \<Rightarrow> 'st \<Rightarrow> (error + 'b) \<times> 'st) \<Rightarrow> 'st \<Rightarrow> (error + 'b) \<times> 'st" where
  "and_then m f j = (case m j of (Inl e, j') \<Rightarrow> (Inl e, j') | (Inr x, j') \<Rightarrow> f x j')"

definition resolve_user_account_id ::
  "'s tracker \<Rightarrow> string \<Rightarrow> 's jira \<Rightarrow> (error + string option) \<times> 's jira" where
  "resolve_user_account_id rsp email j =
     (case user_cache j email of
        Some acct \<Rightarrow> (Inr acct, j)
      | None \<Rightarrow>
          (case request rsp (UserSearch email) j of
             (Inl e, j') \<Rightarrow> (Inl e, j')
           | (Inr b, j') \<Rightarrow>
               (case b of
                  JUsers users \<Rightarrow>
                    (let acct = (case users of [] \<Rightarrow> None | u # _ \<Rightarrow> Some u)
                     in (Inr acct, j'\<lparr>user_cache := (user_cache j')(email \<mapsto> acct)\<rparr>))
                | JEmpty \<Rightarrow> (Inr None, j'\<lparr>user_cache := (user_cache j')(email \<mapsto> None)\<rparr>)
                | _ \<Rightarrow> (Inl (BadBody (UserSearch email)), j'))))"

text \<open>A listing reply read as a list of named entities.\<close>

definition entities_of :: "body \<Rightarrow> entity list option" where
  "entities_of b = (case b of JEntities es \<Rightarrow> Some es | JEmpty \<Rightarrow> Some [] | _ \<Rightarrow> None)"

definition get_or_create_version ::
  "'s tracker \<Rightarrow> string \<Rightarrow> string \<Rightarrow> 's jira \<Rightarrow> (error + entity) \<times> 's jira" where
  "get_or_create_version rsp project_id name j =
     (let vc = (case version_cache j project_id of None \<Rightarrow> Map.empty | Some m \<Rightarrow> m);
          j0 = j\<lparr>version_cache := (version_cache j)(project_id \<mapsto> vc)\<rparr>
      in case vc name of
           Some v \<Rightarrow> (Inr v, j0)
         | None \<Rightarrow>
             (case request rsp (ListVersions project_id) j0 of
                (Inl e, j1) \<Rightarrow> (Inl e, j1)
              | (Inr b, j1) \<Rightarrow>
                  (case entities_of b of
                     None \<Rightarrow> (Inl (BadBody (ListVersions project_id)), j1)
                   | Some versions \<Rightarrow>
                       (case find (\<lambda>v. lower (strip (ent_name v)) = lower (strip name)) versions of
                          Some v \<Rightarrow>
                            (Inr v, j1\<lparr>version_cache := (version_cache j1)(project_id \<mapsto> vc(name \<mapsto> v))\<rparr>)
                        | None \<Rightarrow>
                            (case request rsp (CreateVersion name project_id) j1 of
                               (Inl e, j2) \<Rightarrow> (Inl e, j2)
                             | (Inr b2, j2) \<Rightarrow>
                                 (case b2 of
                                    JEntity v \<Rightarrow>
                                      (Inr v, j2\<lparr>version_cache :=
                                                   (version_cache j2)(project_id \<mapsto> vc(name \<mapsto> v))\<rparr>)
                                  | _ \<Rightarrow> (Inl (BadBody (CreateVersion name project_id)), j2)))))))"

text \<open>
  \<^verbatim>\<open>{c["name"].strip().lower(): c for c in r.json()}\<close>: a later component of the
  same lower-cased name replaces an earlier one.
\<close>

definition by_name :: "entity list \<Rightarrow> (string \<rightharpoonup> entity)" where
  "by_name cs = fold (\<lambda>c m. m(lower (strip (ent_name c)) \<mapsto> c)) cs Map.empty"

definition list_project_components ::
  "'s tracker \<Rightarrow> string \<Rightarrow> 's jira \<Rightarrow> (error + (string \<rightharpoonup> entity)) \<times> 's jira" where
  "list_project_components rsp project_id j =
     (case component_cache j project_id of
        Some comps \<Rightarrow> (Inr comps, j)
      | None \<Rightarrow>
          (case request rsp (ListComponents project_id) j of
             (Inl e, j') \<Rightarrow> (Inl e, j')
           | (Inr b, j') \<Rightarrow>
               (case entities_of b of
                  None \<Rightarrow> (Inl (BadBody (ListComponents project_id)), j')
                | Some cs \<Rightarrow>
                    (Inr (by_name cs),
                     j'\<lparr>component_cache := (component_cache j')(project_id \<mapsto> by_name cs)\<rparr>))))"

definition get_project_meta :: "'s tracker \<Rightarrow> string \<Rightarrow> 's jira \<Rightarrow> (error + body) \<times> 's jira" where
  "get_project_meta rsp project_key j =
     (case request rsp (GetProject project_key) j of
        (Inl e, j') \<Rightarrow> (Inl e, j')
      | (Inr b, j') \<Rightarrow>
          (if b = JNone \<or> b = JText then (Inl (BadBody (GetProject project_key)), j')
           else (Inr b, j')))"

text \<open>\<^verbatim>\<open>project["id"]\<close>\<close>

definition project_id_of :: "body \<Rightarrow> error + string" where
  "project_id_of project = (case project of JProject pid \<Rightarrow> Inr pid | _ \<Rightarrow> Inl (KeyError ''id''))"

definition update_issue_fields ::
  "'s tracker \<Rightarrow> string \<Rightarrow> fields \<Rightarrow> bool \<Rightarrow> 's jira \<Rightarrow> (error + unit) \<times> 's jira" where
  "update_issue_fields rsp key fs dry j =
     (if dry then (Inr (), j)
      else (case request rsp (UpdateIssue key fs) j of
              (Inl e, j') \<Rightarrow> (Inl e, j')
            | (Inr b, j') \<Rightarrow>
                (if b = JText then (Inl (BadBody (UpdateIssue key fs)), j') else (Inr (), j'))))"

definition add_issue_link_is_blocked_by ::
  "'s tracker \<Rightarrow> string \<Rightarrow> string \<Rightarrow> bool \<Rightarrow> 's jira \<Rightarrow> (error + unit) \<times> 's jira" where
  "add_issue_link_is_blocked_by rsp key depends_on_key dry j =
     (if dry then (Inr (), j)
      else (case request rsp (CreateLink key depends_on_key) j of
              (Inl e, j') \<Rightarrow> (Inl e, j')
            | (Inr b, j') \<Rightarrow>
                (if b = JNone \<or> b = JText
                 then (Inl (BadBody (CreateLink key depends_on_key)), j')
                 else (Inr (), j'))))"

subsection \<open>\<^verbatim>\<open>build_fields\<close>\<close>

definition set_dates :: "pyenv \<Rightarrow> row \<Rightarrow> string option \<Rightarrow> fields \<Rightarrow> fields" where
  "set_dates env r startdate_field fs =
     (let start = normalize_date env (or_empty (r ''StartDate''));
          due = normalize_date env (or_empty (r ''DueDate''));
          f1 = (case (startdate_field, start) of
                  (Some sf, Some d) \<Rightarrow> if sf \<noteq> [] then put_field sf (FStr d) fs else fs
                | _ \<Rightarrow> fs)
      in case due of Some d \<Rightarrow> put_field ''duedate'' (FStr d) f1 | None \<Rightarrow> f1)"

definition set_plain :: "row \<Rightarrow> fields \<Rightarrow> fields" where
  "set_plain r fs =
     (let f1 = (case cell r ''Description'' of
                  Some desc \<Rightarrow> put_field ''description'' (FStr desc) fs | None \<Rightarrow> fs);
          f2 = (case cell r ''Priority'' of
                  Some prio \<Rightarrow> put_field ''priority'' (FName (strip prio)) f1 | None \<Rightarrow> f1)
      in case cell r ''Labels'' of
           Some labels \<Rightarrow> put_field ''labels'' (FStrs (tokens labels)) f2 | None \<Rightarrow> f2)"

text \<open>
  The loop over the component names of a row. \<^verbatim>\<open>comp_map\<close> is the very dict the
  cache holds for the project, so the entry written for a created component is seen
  by every later row: the loop reads and writes the cache of the \<^verbatim>\<open>Jira\<close> object.
\<close>

definition comp_map_of :: "'s jira \<Rightarrow> string \<Rightarrow> (string \<rightharpoonup> entity)" where
  "comp_map_of j project_id =
     (case component_cache j project_id of None \<Rightarrow> Map.empty | Some m \<Rightarrow> m)"

fun add_components ::
  "'s tracker \<Rightarrow> string \<Rightarrow> string list \<Rightarrow> string list \<Rightarrow> 's jira \<Rightarrow> (error + string list) \<times> 's jira" where
  "add_components rsp project_id [] ids j = (Inr ids, j)"
| "add_components rsp project_id (name # names) ids j =
     (case comp_map_of j project_id (lower name) of
        Some c \<Rightarrow> add_components rsp project_id names (ids @ [ent_id c]) j
      | None \<Rightarrow>
          (case request rsp (CreateComponent name project_id) j of
             (Inl e, j') \<Rightarrow> (Inl e, j')
           | (Inr b, j') \<Rightarrow>
               (case b of
                  JEntity created \<Rightarrow>
                    add_components rsp project_id names (ids @ [ent_id created])
                      (j'\<lparr>component_cache :=
                            (component_cache j')
                              (project_id \<mapsto> (comp_map_of j' project_id)(lower name \<mapsto> created))\<rparr>)
                | _ \<Rightarrow> (Inl (BadBody (CreateComponent name project_id)), j'))))"

definition set_components ::
  "'s tracker \<Rightarrow> row \<Rightarrow> body \<Rightarrow> fields \<Rightarrow> 's jira \<Rightarrow> (error + fields) \<times> 's jira" where
  "set_components rsp r project fs j =
     (case cell r ''Components'' of
        None \<Rightarrow> (Inr fs, j)
      | Some comps \<Rightarrow>
          (case project_id_of project of
             Inl e \<Rightarrow> (Inl e, j)
           | Inr pid \<Rightarrow>
               and_then (list_project_components rsp pid)
                 (\<lambda>comp_map. and_then (add_components rsp pid (tokens comps) [])
                    (\<lambda>ids j'. (Inr (put_field ''components'' (FIds ids) fs), j'))) j))"

fun add_versions ::
  "'s tracker \<Rightarrow> string \<Rightarrow> string list \<Rightarrow> string list \<Rightarrow> 's jira \<Rightarrow> (error + string list) \<times> 's jira" where
  "add_versions rsp project_id [] ids j = (Inr ids, j)"
| "add_versions rsp project_id (vname # vnames) ids j =
     (case get_or_create_version rsp project_id vname j of
        (Inl e, j') \<Rightarrow> (Inl e, j')
      | (Inr v, j') \<Rightarrow> add_versions rsp project_id vnames (ids @ [ent_id v]) j')"

definition set_versions ::
  "'s tracker \<Rightarrow> row \<Rightarrow> body \<Rightarrow> fields \<Rightarrow> 's jira \<Rightarrow> (error + fields) \<times> 's jira" where
  "set_versions rsp r project fs j =
     (case cell r ''FixVersions'' of
        None \<Rightarrow> (Inr fs, j)
      | Some vers \<Rightarrow>
          (case project_id_of project of
             Inl e \<Rightarrow> (Inl e, j)
           | Inr pid \<Rightarrow>
               and_then (add_versions rsp pid (tokens vers) [])
                 (\<lambda>ids j'. (Inr (put_field ''fixVersions'' (FIds ids) fs), j')) j))"

definition set_assignee ::
  "'s tracker \<Rightarrow> row \<Rightarrow> fields \<Rightarrow> 's jira \<Rightarrow> (error + fields) \<times> 's jira" where
  "set_assignee rsp r fs j =
     (case cell r ''AssigneeEmail'' of
        None \<Rightarrow> (Inr fs, j)
      | Some ass_email \<Rightarrow>
          and_then (resolve_user_account_id rsp (strip ass_email))
            (\<lambda>acct j'.
               (Inr (case acct of
                       Some a \<Rightarrow> if a \<noteq> [] then put_field ''assignee'' (FAccount a) fs else fs
                     | None \<Rightarrow> fs), j')) j)"

definition set_links :: "pyenv \<Rightarrow> row \<Rightarrow> fields \<Rightarrow> fields" where
  "set_links env r fs =
     (let f1 = (case cell r ''EpicKey'' of
                  Some epic_key \<Rightarrow> put_field (epic_link_field env) (FStr (strip epic_key)) fs
                | None \<Rightarrow> fs)
      in case cell r ''ParentKey'' of
           Some parent_key \<Rightarrow> put_field ''parent'' (FKey (strip parent_key)) f1 | None \<Rightarrow> f1)"

definition build_fields ::
  "'s tracker \<Rightarrow> pyenv \<Rightarrow> row \<Rightarrow> string option \<Rightarrow> body \<Rightarrow> 's jira \<Rightarrow> (error + fields) \<times> 's jira" where
  "build_fields rsp env r startdate_field project j =
     and_then (set_components rsp r project (set_plain r (set_dates env r startdate_field [])))
       (\<lambda>f1. and_then (set_versions rsp r project f1)
          (\<lambda>f2. and_then (set_assignee rsp r f2)
             (\<lambda>f3 j'. (Inr (set_links env r f3), j')))) j"

subsection \<open>\<^verbatim>\<open>main\<close>\<close>

datatype direction = blocked_by | blocks

record args =
  project_key :: string
  startdate_field :: "string option"
  dry_run :: bool
  max_arg :: "int option"
  dependencies_direction :: direction

text \<open>The state of the loop: the \<^verbatim>\<open>Jira\<close> object and the three counters.\<close>

record 's run =
  conn :: "'s jira"
  updated :: nat
  linked :: nat
  skipped :: nat

text \<open>\<^verbatim>\<open>if args.max and updated >= args.max: break\<close>\<close>

definition cap_reached :: "args \<Rightarrow> 's run \<Rightarrow> bool" where
  "cap_reached a st = (case max_arg a of None \<Rightarrow> False | Some n \<Rightarrow> n \<noteq> 0 \<and> n \<le> int (updated st))"

text \<open>
  The key of the row's issue: the \<^verbatim>\<open>IssueKey\<close> cell, else the hit of a search by
  summary; \<open>None\<close> is the row that is skipped.
\<close>

definition resolve_key ::
  "'s tracker \<Rightarrow> args \<Rightarrow> row \<Rightarrow> 's jira \<Rightarrow> (error + string option) \<times> 's jira" where
  "resolve_key rsp a r j =
     (let key = strip (or_empty (r ''IssueKey''));
          summary = strip (or_empty (r ''Summary''))
      in if key \<noteq> [] then (Inr (Some key), j)
         else if summary = [] then (Inr None, j)
         else (case search_issue_by_summary rsp (project_key a) summary j of
                 (Inl e, j') \<Rightarrow> (Inl e, j')
               | (Inr None, j') \<Rightarrow> (Inr None, j')
               | (Inr (Some k), j') \<Rightarrow> if k = [] then (Inr None, j') else (Inr (Some k), j')))"

text \<open>The \<^verbatim>\<open>try\<close> around \<^verbatim>\<open>update_issue_fields\<close>: an exception is printed and dropped.\<close>

definition update_step :: "'s tracker \<Rightarrow> args \<Rightarrow> string \<Rightarrow> fields \<Rightarrow> 's run \<Rightarrow> 's run" where
  "update_step rsp a key fs st =
     (case update_issue_fields rsp key fs (dry_run a) (conn st) of
        (Inr u, j') \<Rightarrow> st\<lparr>conn := j', updated := updated st + 1\<rparr>
      | (Inl e, j') \<Rightarrow> st\<lparr>conn := j'\<rparr>)"


text \<open>The \<^verbatim>\<open>for dep in deps\<close> loop, each link in its own \<^verbatim>\<open>try\<close>.\<close>

fun link_deps :: "'s tracker \<Rightarrow> args \<Rightarrow> string \<Rightarrow> string list \<Rightarrow> 's run \<Rightarrow> 's run" where
  "link_deps rsp a key [] st = st"
| "link_deps rsp a key (dep # deps) st =
     (case (case dependencies_direction a of
              blocked_by \<Rightarrow> add_issue_link_is_blocked_by rsp key dep (dry_run a) (conn st)
            | blocks \<Rightarrow> add_issue_link_is_blocked_by rsp dep key (dry_run a) (conn st)) of
        (Inr u, j') \<Rightarrow> link_deps rsp a key deps (st\<lparr>conn := j', linked := linked st + 1\<rparr>)
      | (Inl e, j') \<Rightarrow> link_deps rsp a key deps (st\<lparr>conn := j'\<rparr>))"

definition deps_of :: "row \<Rightarrow> string list" where
  "deps_of r = (case cell r ''Dependencies'' of None \<Rightarrow> [] | Some deps_raw \<Rightarrow> tokens deps_raw)"

text \<open>One turn of the loop over the rows, after the test of the cap.\<close>

definition process_row ::
  "'s tracker \<Rightarrow> pyenv \<Rightarrow> args \<Rightarrow> body \<Rightarrow> row \<Rightarrow> 's run \<Rightarrow> (error + unit) \<times> 's run" where
  "process_row rsp env a project r st =
     (case resolve_key rsp a r (conn st) of
        (Inl e, j') \<Rightarrow> (Inl e, st\<lparr>conn := j'\<rparr>)
      | (Inr None, j') \<Rightarrow> (Inr (), st\<lparr>conn := j', skipped := skipped st + 1\<rparr>)
      | (Inr (Some key), j') \<Rightarrow>
          (case build_fields rsp env r (startdate_field a) project j' of
             (Inl e, j'') \<Rightarrow> (Inl e, st\<lparr>conn := j''\<rparr>)
           | (Inr fs, j'') \<Rightarrow>
               (Inr (), link_deps rsp a key (deps_of r)
                          (update_step rsp a key fs (st\<lparr>conn := j''\<rparr>)))))"

fun rows_loop ::
  "'s tracker \<Rightarrow> pyenv \<Rightarrow> args \<Rightarrow> body \<Rightarrow> row list \<Rightarrow> 's run \<Rightarrow> (error + unit) \<times> 's run" where
  "rows_loop rsp env a project [] st = (Inr (), st)"
| "rows_loop rsp env a project (r # rows) st =
     (if cap_reached a st then (Inr (), st)
      else (case process_row rsp env a project r st of
              (Inl e, st') \<Rightarrow> (Inl e, st')
            | (Inr u, st') \<Rightarrow> rows_loop rsp env a project rows st'))"

text \<open>
  \<^verbatim>\<open>main\<close> from the creation of the \<^verbatim>\<open>Jira\<close> object on; the rows are those
  read from the CSV file.
\<close>

definition start :: "'s jira \<Rightarrow> 's run" where
  "start j = \<lparr>conn = j, updated = 0, linked = 0, skipped = 0\<rparr>"

definition column_updater_main ::
  "'s tracker \<Rightarrow> pyenv \<Rightarrow> args \<Rightarrow> row list \<Rightarrow> 's \<Rightarrow> (error + unit) \<times> 's run" where
  "column_updater_main rsp env a rows s =
     (case get_project_meta rsp (project_key a) (new_jira s) of
        (Inl e, j) \<Rightarrow> (Inl e, start j)
      | (Inr project, j) \<Rightarrow> rows_loop rsp env a project rows (start j))"

section \<open>Importer.py\<close>

subsection \<open>Helpers\<close>

definition MAX_RETRIES :: nat where
  "MAX_RETRIES = 1"

text \<open>
  \<^verbatim>\<open>DATE_RE\<close>, \<^verbatim>\<open>^\d{4}-\d{2}-\d{2}$\<close>; the \<^verbatim>\<open>$\<close> also matches before a
  final newline.
\<close>

definition is_ymd :: "string \<Rightarrow> bool" where
  "is_ymd s =
     (case s of
        [a, b, c, d, e, f, g, h, i, j] \<Rightarrow>
          is_digit a \<and> is_digit b \<and> is_digit c \<and> is_digit d \<and> e = CHR ''-'' \<and>
          is_digit f \<and> is_digit g \<and> h = CHR ''-'' \<and> is_digit i \<and> is_digit j
      | _ \<Rightarrow> False)"

definition DATE_RE :: "string \<Rightarrow> bool" where
  "DATE_RE s = (is_ymd s \<or> (s \<noteq> [] \<and> last s = CHR 0x0A \<and> is_ymd (butlast s)))"

definition clean_date :: "string option \<Rightarrow> string option" where
  "clean_date val =
     (case val of
        None \<Rightarrow> None
      | Some v \<Rightarrow> if v = [] then None else if DATE_RE (strip v) then Some (strip v) else None)"

text \<open>
  The state of the script: the remote tracker, the exchanges with it so far (each call
  with the reply it got, oldest first), and the variables of \<^verbatim>\<open>main\<close>. \<open>made\<close>
  keeps, for the statements below, what the script prints as it goes: the row number,
  the issue type, the payload and the key of every issue created. \<open>sent\<close> is the list
  of the calls sent.
\<close>

record 's importer =
  peer :: 's
  wire :: "(call \<times> reply) list"
  created :: "string \<rightharpoonup> string"
  pending_links :: "(string \<times> string) list"
  current_parent :: "string option"
  made :: "(nat \<times> string \<times> fields \<times> string) list"

definition sent :: "'s importer \<Rightarrow> call list" where
  "sent st = map fst (wire st)"

definition exchange :: "'s tracker \<Rightarrow> call \<Rightarrow> 's importer \<Rightarrow> reply \<times> 's importer" where
  "exchange rsp c st =
     (case rsp (peer st) c of (r, s') \<Rightarrow> (r, st\<lparr>peer := s', wire := wire st @ [(c, r)]\<rparr>))"

text \<open>
  An attempt that raises a \<^verbatim>\<open>RequestException\<close> where the reply is read: the
  session raised, or the reply, of whatever status, has a body that \<^verbatim>\<open>r.json()\<close>
  cannot decode.
\<close>

definition attempt_raises :: "reply \<Rightarrow> bool" where
  "attempt_raises r = (case r of Raised \<Rightarrow> True | Reply code b \<Rightarrow> b = JText)"

text \<open>
  The \<^verbatim>\<open>for attempt in range(MAX_RETRIES + 1)\<close> loop of \<^verbatim>\<open>jira_post\<close>, by the
  number of retries left. Both \<^verbatim>\<open>return\<close> statements, with their
  \<^verbatim>\<open>r.json() if r.text else {}\<close>, are inside the \<^verbatim>\<open>try\<close>: an attempt that
  raises is retried while a retry is left and raised again otherwise; any other reply
  is returned, whatever its status.
\<close>

fun post_attempts ::
  "'s tracker \<Rightarrow> call \<Rightarrow> nat \<Rightarrow> 's importer \<Rightarrow> (error + nat \<times> body) \<times> 's importer" where
  "post_attempts rsp c 0 st =
     (case exchange rsp c st of
        (Raised, st') \<Rightarrow> (Inl (RequestException c), st')
      | (Reply code b, st') \<Rightarrow>
          (if b = JText then (Inl (RequestException c), st') else (Inr (code, b), st')))"
| "post_attempts rsp c (Suc retries) st =
     (case exchange rsp c st of
        (Raised, st') \<Rightarrow> post_attempts rsp c retries st'
      | (Reply code b, st') \<Rightarrow>
          (if b = JText then post_attempts rsp c retries st' else (Inr (code, b), st')))"

definition jira_post ::
  "'s tracker \<Rightarrow> call \<Rightarrow> bool \<Rightarrow> 's importer \<Rightarrow> (error + nat \<times> body) \<times> 's importer" where
  "jira_post rsp c dry st =
     (if dry then (Inr (200, JKey ''DRY-KEY''), st) else post_attempts rsp c MAX_RETRIES st)"

definition jira_get ::
  "'s tracker \<Rightarrow> call \<Rightarrow> 's importer \<Rightarrow> (error + nat \<times> body) \<times> 's importer" where
  "jira_get rsp c st =
     (case exchange rsp c st of
        (Raised, st') \<Rightarrow> (Inl (RequestException c), st')
      | (Reply code b, st') \<Rightarrow>
          (if b = JText then (Inl (RequestException c), st') else (Inr (code, b), st')))"

definition jira_delete ::
  "'s tracker \<Rightarrow> call \<Rightarrow> bool \<Rightarrow> 's importer \<Rightarrow> (error + nat) \<times> 's importer" where
  "jira_delete rsp c dry st =
     (if dry then (Inr 204, st)
      else (case exchange rsp c st of
              (Reply code b, st') \<Rightarrow> (Inr code, st')
            | (Raised, st') \<Rightarrow> (Inl (RequestException c), st')))"

definition to_adf :: "string option \<Rightarrow> fval" where
  "to_adf text = (let safe = strip (or_empty text) in FDoc (if safe = [] then '' '' else safe))"

text \<open>\<^verbatim>\<open>resp.get("key")\<close> on a status 200 or 201.\<close>

definition create_issue ::
  "'s tracker \<Rightarrow> fields \<Rightarrow> bool \<Rightarrow> 's importer \<Rightarrow> (error + string option) \<times> 's importer" where
  "create_issue rsp fs dry st =
     (case jira_post rsp (CreateIssue fs) dry st of
        (Inl e, st') \<Rightarrow> (Inl e, st')
      | (Inr (code, resp), st') \<Rightarrow>
          (if code = 200 \<or> code = 201
           then (Inr (case resp of JKey k \<Rightarrow> Some k | _ \<Rightarrow> None), st')
           else (Inr None, st')))"

definition link_issue ::
  "'s tracker \<Rightarrow> string \<Rightarrow> string \<Rightarrow> bool \<Rightarrow> 's importer \<Rightarrow> (error + bool) \<times> 's importer" where
  "link_issue rsp inward_key outward_key dry st =
     (case jira_post rsp (CreateLink inward_key outward_key) dry st of
        (Inl e, st') \<Rightarrow> (Inl e, st')
      | (Inr (code, resp), st') \<Rightarrow> (Inr (code = 200 \<or> code = 201), st'))"

subsection \<open>\<^verbatim>\<open>main\<close>, from the creation loop on\<close>

record import_args =
  imp_project_key :: string
  imp_dry_run :: bool
  JIRA_START_DATE_FIELD :: "string option"

text \<open>The value of a Python expression used as a condition: \<^verbatim>\<open>None\<close> and the empty string are false.\<close>

definition truthy :: "string option \<Rightarrow> string option" where
  "truthy v = (case v of None \<Rightarrow> None | Some s \<Rightarrow> if s = [] then None else Some s)"

text \<open>\<^verbatim>\<open>a or b or c\<close>\<close>

fun first_truthy :: "string option list \<Rightarrow> string option" where
  "first_truthy [] = None"
| "first_truthy [v] = v"
| "first_truthy (v # vs) = (case truthy v of Some s \<Rightarrow> Some s | None \<Rightarrow> first_truthy vs)"

text \<open>The two dates, set after the dict literal of either branch.\<close>

definition dated :: "import_args \<Rightarrow> row \<Rightarrow> fields \<Rightarrow> fields" where
  "dated a r fs =
     (let f1 = (case clean_date (r ''Due date'') of
                  Some due_clean \<Rightarrow> put_field ''duedate'' (FStr due_clean) fs | None \<Rightarrow> fs)
      in case truthy (JIRA_START_DATE_FIELD a) of
           None \<Rightarrow> f1
         | Some sf \<Rightarrow>
             (case clean_date (r ''Start date'') of
                Some start_clean \<Rightarrow> put_field sf (FStr start_clean) f1 | None \<Rightarrow> f1))"

definition task_fields :: "import_args \<Rightarrow> row \<Rightarrow> string \<Rightarrow> fields" where
  "task_fields a r summary =
     dated a r
       [(''summary'', FStr summary), (''project'', FKey (imp_project_key a)),
        (''issuetype'', FName ''Task''), (''description'', to_adf (r ''Description''))]"

definition subtask_fields :: "import_args \<Rightarrow> row \<Rightarrow> string \<Rightarrow> string \<Rightarrow> fields" where
  "subtask_fields a r summary parent =
     dated a r
       [(''summary'', FStr summary), (''project'', FKey (imp_project_key a)),
        (''issuetype'', FName ''Sub-task''), (''description'', to_adf (r ''Description'')),
        (''parent'', FKey parent)]"

definition task_row ::
  "'s tracker \<Rightarrow> import_args \<Rightarrow> nat \<Rightarrow> row \<Rightarrow> string \<Rightarrow> 's importer \<Rightarrow> (error + unit) \<times> 's importer" where
  "task_row rsp a idx r summary st =
     (let fs = task_fields a r summary
      in case create_issue rsp fs (imp_dry_run a) st of
           (Inl e, st') \<Rightarrow> (Inl e, st')
         | (Inr key, st') \<Rightarrow>
             (case truthy key of
                None \<Rightarrow> (Inl (SystemExit ''Failed to create task''), st')
              | Some k \<Rightarrow>
                  (Inr (), st'\<lparr>created := (created st')(summary \<mapsto> k),
                                current_parent := Some summary,
                                made := made st' @ [(idx, ''Task'', fs, k)]\<rparr>)))"

text \<open>
  The dependency of a sub-task is looked up among the issues created so far, under its
  own name and as the Design or Approval sub-task of that name; one that is not found
  is warned about and dropped.
\<close>

definition note_dependency :: "row \<Rightarrow> string \<Rightarrow> 's importer \<Rightarrow> 's importer" where
  "note_dependency r key st =
     (let depends_on = strip (or_empty (r ''Depends on''))
      in if depends_on = [] then st
         else (case truthy (first_truthy [created st depends_on,
                                           created st (depends_on @ '':Design''),
                                           created st (depends_on @ '':Approval'')]) of
                 Some dep_key \<Rightarrow> st\<lparr>pending_links := pending_links st @ [(dep_key, key)]\<rparr>
               | None \<Rightarrow> st))"

definition subtask_row ::
  "'s tracker \<Rightarrow> import_args \<Rightarrow> nat \<Rightarrow> row \<Rightarrow> string \<Rightarrow> 's importer \<Rightarrow> (error + unit) \<times> 's importer" where
  "subtask_row rsp a idx r summary st =
     (case (case truthy (current_parent st) of None \<Rightarrow> None
            | Some p \<Rightarrow> (case created st p of None \<Rightarrow> None | Some pk \<Rightarrow> Some (p, pk))) of
        None \<Rightarrow> (Inl (SystemExit ''Subtask found without a valid parent task''), st)
      | Some (p, pk) \<Rightarrow>
          (let fs = subtask_fields a r summary pk
           in case create_issue rsp fs (imp_dry_run a) st of
                (Inl e, st') \<Rightarrow> (Inl e, st')
              | (Inr key, st') \<Rightarrow>
                  (case truthy key of
                     None \<Rightarrow> (Inl (SystemExit ''Failed to create subtask''), st')
                   | Some k \<Rightarrow>
                       (Inr (), note_dependency r k
                                  (st'\<lparr>created := (created st')(p @ '':'' @ summary \<mapsto> k),
                                        made := made st' @ [(idx, ''Sub-task'', fs, k)]\<rparr>)))))"

definition import_row ::
  "'s tracker \<Rightarrow> import_args \<Rightarrow> nat \<Rightarrow> row \<Rightarrow> 's importer \<Rightarrow> (error + unit) \<times> 's importer" where
  "import_row rsp a idx r st =
     (case r ''Summary'' of
        None \<Rightarrow> (Inl (KeyError ''Summary''), st)
      | Some summary \<Rightarrow>
          (case r ''Issue Type'' of
             None \<Rightarrow> (Inl (KeyError ''Issue Type''), st)
           | Some issue_type \<Rightarrow>
               if issue_type = ''Task'' then task_row rsp a idx r summary st
               else if issue_type = ''Sub-task'' then subtask_row rsp a idx r summary st
               else (Inr (), st)))"

text \<open>\<^verbatim>\<open>for idx, row in enumerate(rows, 1)\<close>\<close>

fun import_rows ::
  "'s tracker \<Rightarrow> import_args \<Rightarrow> nat \<Rightarrow> row list \<Rightarrow> 's importer \<Rightarrow> (error + unit) \<times> 's importer" where
  "import_rows rsp a idx [] st = (Inr (), st)"
| "import_rows rsp a idx (r # rows) st =
     (case import_row rsp a idx r st of
        (Inl e, st') \<Rightarrow> (Inl e, st')
      | (Inr u, st') \<Rightarrow> import_rows rsp a (Suc idx) rows st')"

text \<open>\<^verbatim>\<open>for dep_key, tgt_key in pending_links\<close>\<close>

fun link_pending ::
  "'s tracker \<Rightarrow> import_args \<Rightarrow> (string \<times> string) list \<Rightarrow> 's importer \<Rightarrow> (error + unit) \<times> 's importer" where
  "link_pending rsp a [] st = (Inr (), st)"
| "link_pending rsp a ((dep_key, tgt_key) # links) st =
     (case link_issue rsp dep_key tgt_key (imp_dry_run a) st of
        (Inl e, st') \<Rightarrow> (Inl e, st')
      | (Inr linked_ok, st') \<Rightarrow> link_pending rsp a links st')"

definition new_importer :: "'s \<Rightarrow> 's importer" where
  "new_importer s = \<lparr>peer = s, wire = [], created = Map.empty, pending_links = [],
                     current_parent = None, made = []\<rparr>"

text \<open>
  \<^verbatim>\<open>main\<close> after the environment check, the reading of the CSV file and the
  optional wipe of the project: the creation loop, then the linking loop. The rows are
  those of a CSV file whose lines all have a cell for every column of the header.
\<close>

definition importer_main ::
  "'s tracker \<Rightarrow> import_args \<Rightarrow> row list \<Rightarrow> 's \<Rightarrow> (error + unit) \<times> 's importer" where
  "importer_main rsp a rows s =
     (case import_rows rsp a 1 rows (new_importer s) of
        (Inl e, st) \<Rightarrow> (Inl e, st)
      | (Inr u, st) \<Rightarrow> link_pending rsp a (pending_links st) st)"

section \<open>Notions used in the statements\<close>

text \<open>An issue of a result set whose summary is exactly the query, up to case and outer whitespace.\<close>

definition exact_hit :: "string \<Rightarrow> issue \<Rightarrow> bool" where
  "exact_hit q it = (lower (strip (issue_summary it)) = lower (strip q))"

text \<open>A tracker that answers every call with the same two issues.\<close>

definition bridge_tracker :: "unit tracker" where
  "bridge_tracker s c =
     (Reply 200 (JIssues [\<lparr>issue_key = ''P-9'', issue_summary = ''Build bridge deck''\<rparr>,
                          \<lparr>issue_key = ''P-7'', issue_summary = '' build Bridge ''\<rparr>]), s)"

text \<open>
  Every primary call (an issue update or creation) comes before every link creation:
  once a link creation has been sent, no primary call follows.
\<close>

definition links_last :: "call list \<Rightarrow> bool" where
  "links_last tr = list_all (\<lambda>c. \<not> is_primary c) (dropWhile (\<lambda>c. \<not> is_link c) tr)"

text \<open>
  Trackers for concrete runs. \<open>plain_tracker\<close> accepts every call: the project has
  id 10 and neither components nor versions, a search finds nothing, and a created
  issue gets the key K. \<open>refusing_tracker\<close> differs in that it answers every issue
  update with status 500. \<open>numbering_tracker\<close> numbers the issues it creates T-0, T-1 and
  so on (up to T-9), and \<open>down_tracker\<close> raises on every exchange.
\<close>

definition plain_tracker :: "unit tracker" where
  "plain_tracker s c =
     (case c of
        GetProject k \<Rightarrow> (Reply 200 (JProject ''10''), s)
      | CreateComponent n p \<Rightarrow> (Reply 201 (JEntity \<lparr>ent_name = n, ent_id = ''c-'' @ n\<rparr>), s)
      | CreateVersion n p \<Rightarrow> (Reply 201 (JEntity \<lparr>ent_name = n, ent_id = ''v-'' @ n\<rparr>), s)
      | UpdateIssue k f \<Rightarrow> (Reply 204 JEmpty, s)
      | CreateLink x y \<Rightarrow> (Reply 201 JEmpty, s)
      | CreateIssue f \<Rightarrow> (Reply 201 (JKey ''K''), s)
      | _ \<Rightarrow> (Reply 200 JEmpty, s))"

definition refusing_tracker :: "unit tracker" where
  "refusing_tracker s c =
     (case c of
        UpdateIssue k f \<Rightarrow> (Reply 500 JEmpty, s)
      | _ \<Rightarrow> plain_tracker s c)"

definition numbering_tracker :: "nat tracker" where
  "numbering_tracker n c =
     (case c of
        CreateIssue f \<Rightarrow> (Reply 201 (JKey (''T-'' @ [digit n])), Suc n)
      | _ \<Rightarrow> (Reply 201 JEmpty, n))"

definition down_tracker :: "unit tracker" where
  "down_tracker s c = (Raised, s)"

definition env0 :: pyenv where
  "env0 = \<lparr>fromisoformat = (\<lambda>s. None), pads_year = False,
            epic_link_field = ''customfield_10014''\<rparr>"

definition live_args :: args where
  "live_args = \<lparr>project_key = ''P'', startdate_field = None, dry_run = False, max_arg = None,
                 dependencies_direction = blocked_by\<rparr>"

definition dry_args :: args where
  "dry_args = live_args\<lparr>dry_run := True\<rparr>"

definition capped_args :: args where
  "capped_args = live_args\<lparr>max_arg := Some 1\<rparr>"

text \<open>CSV rows for concrete runs.\<close>

definition row_a1 :: row where
  "row_a1 = [''IssueKey'' \<mapsto> ''A-1'', ''Dependencies'' \<mapsto> ''A-2'']"

definition row_a2 :: row where
  "row_a2 = [''IssueKey'' \<mapsto> ''A-2'']"

definition row_deck :: row where
  "row_deck = [''IssueKey'' \<mapsto> ''A-1'', ''Components'' \<mapsto> ''Deck'']"

definition row_blank :: row where
  "row_blank = [''Description'' \<mapsto> ''no key, no summary'']"

text \<open>
  \<open>flaky_tracker\<close> raises on the first exchange and accepts every later one;
  \<open>rejecting_tracker\<close> answers every issue creation with status 400.
\<close>

definition flaky_tracker :: "nat tracker" where
  "flaky_tracker n c = (if n = 0 then (Raised, Suc n) else (Reply 201 (JKey ''K''), Suc n))"

definition rejecting_tracker :: "unit tracker" where
  "rejecting_tracker s c =
     (case c of
        CreateIssue f \<Rightarrow> (Reply 400 JEmpty, s)
      | _ \<Rightarrow> plain_tracker s c)"

definition import_live :: import_args where
  "import_live = \<lparr>imp_project_key = ''P'', imp_dry_run = False, JIRA_START_DATE_FIELD = None\<rparr>"

definition task_a :: row where
  "task_a = [''Summary'' \<mapsto> ''A'', ''Issue Type'' \<mapsto> ''Task'']"

definition task_b :: row where
  "task_b = [''Summary'' \<mapsto> ''B'', ''Issue Type'' \<mapsto> ''Task'']"

definition sub_design :: row where
  "sub_design = [''Summary'' \<mapsto> ''Design'', ''Issue Type'' \<mapsto> ''Sub-task'', ''Depends on'' \<mapsto> ''B'']"

definition sub_approval :: row where
  "sub_approval = [''Summary'' \<mapsto> ''Approval'', ''Issue Type'' \<mapsto> ''Sub-task'', ''Depends on'' \<mapsto> ''A'']"

text \<open>
  The record of created issues, read against the claim about parents. \<open>parents_ok cur es\<close>
  walks the entries in order with the key of the latest Task entry seen so far: every
  entry that is not a Task must carry that key as its parent.
\<close>

fun parents_ok :: "string option \<Rightarrow> (nat \<times> string \<times> fields \<times> string) list \<Rightarrow> bool" where
  "parents_ok cur [] = True"
| "parents_ok cur ((idx, ty, fs, key) # es) =
     (if ty = ''Task'' then parents_ok (Some key) es
      else (cur \<noteq> None \<and> get_field fs ''parent'' = map_option FKey cur) \<and> parents_ok cur es)"

fun last_task :: "string option \<Rightarrow> (nat \<times> string \<times> fields \<times> string) list \<Rightarrow> string option" where
  "last_task cur [] = cur"
| "last_task cur ((idx, ty, fs, key) # es) = last_task (if ty = ''Task'' then Some key else cur) es"

text \<open>The rows of type Task or Sub-task with their row numbers, in CSV order.\<close>

fun typed_rows :: "nat \<Rightarrow> row list \<Rightarrow> (nat \<times> string) list" where
  "typed_rows idx [] = []"
| "typed_rows idx (r # rows) =
     (if r ''Issue Type'' = Some ''Task'' then (idx, ''Task'') # typed_rows (Suc idx) rows
      else if r ''Issue Type'' = Some ''Sub-task'' then (idx, ''Sub-task'') # typed_rows (Suc idx) rows
      else typed_rows (Suc idx) rows)"

definition row_and_type :: "nat \<times> string \<times> fields \<times> string \<Rightarrow> nat \<times> string" where
  "row_and_type e = (case e of (idx, ty, fs, key) \<Rightarrow> (idx, ty))"

text \<open>
  What holds between the rows: the record of created issues is in order, and the entry
  of \<^verbatim>\<open>created\<close> under the current parent is the key of the latest task.
\<close>

definition parent_inv :: "'s importer \<Rightarrow> bool" where
  "parent_inv st =
     (parents_ok None (made st)
      \<and> (\<forall>p pk. truthy (current_parent st) = Some p \<and> created st p = Some pk
             \<longrightarrow> last_task None (made st) = Some pk))"

text \<open>
  The issues a run has created on the tracker, read off its exchanges: the payload of
  every issue creation that was answered with status 200 or 201 and a key, with that
  key.
\<close>

definition created_by :: "call \<times> reply \<Rightarrow> (fields \<times> string) option" where
  "created_by x =
     (case x of
        (c, r) \<Rightarrow>
          (case c of
             CreateIssue fs \<Rightarrow>
               (case r of
                  Raised \<Rightarrow> None
                | Reply code b \<Rightarrow>
                    (case b of
                       JKey k \<Rightarrow> if (code = 200 \<or> code = 201) \<and> k \<noteq> [] then Some (fs, k) else None
                     | _ \<Rightarrow> None))
           | _ \<Rightarrow> None))"

definition issues_created :: "(call \<times> reply) list \<Rightarrow> (fields \<times> string) list" where
  "issues_created w = List.map_filter created_by w"

text \<open>
  The issues created, each with the number and the type of its row: the creations
  follow the rows of type Task and Sub-task, one for one.
\<close>

definition log_of :: "row list \<Rightarrow> (call \<times> reply) list \<Rightarrow> (nat \<times> string \<times> fields \<times> string) list" where
  "log_of rows w =
     map (\<lambda>((idx, ty), (fs, key)). (idx, ty, fs, key)) (zip (typed_rows 1 rows) (issues_created w))"

definition payload_and_key :: "nat \<times> string \<times> fields \<times> string \<Rightarrow> fields \<times> string" where
  "payload_and_key e = (case e of (idx, ty, fs, key) \<Rightarrow> (fs, key))"

definition import_dated :: import_args where
  "import_dated = \<lparr>imp_project_key = ''P'', imp_dry_run = False,
                    JIRA_START_DATE_FIELD = Some ''customfield_10015''\<rparr>"

definition sub_dated :: row where
  "sub_dated = [''Summary'' \<mapsto> ''Design'', ''Issue Type'' \<mapsto> ''Sub-task'',
                ''Start date'' \<mapsto> ''2025-08-09'', ''Due date'' \<mapsto> ''2025-09-01'']"

text \<open>A configuration whose start-date field is \<^verbatim>\<open>parent\<close>, and a dry run.\<close>

definition import_parent_dated :: import_args where
  "import_parent_dated = \<lparr>imp_project_key = ''P'', imp_dry_run = False,
                           JIRA_START_DATE_FIELD = Some ''parent''\<rparr>"

definition import_dry :: import_args where
  "import_dry = \<lparr>imp_project_key = ''P'', imp_dry_run = True, JIRA_START_DATE_FIELD = None\<rparr>"

text \<open>The call whose failure an error reports, and whether that call is an issue update, an issue creation or a link creation.\<close>

fun error_call :: "error \<Rightarrow> call option" where
  "error_call (RequestException c) = Some c"
| "error_call (RuntimeError c n) = Some c"
| "error_call (BadBody c) = Some c"
| "error_call (KeyError k) = None"
| "error_call (SystemExit m) = None"

definition from_update_or_link :: "error \<Rightarrow> bool" where
  "from_update_or_link e = (case error_call e of Some c \<Rightarrow> is_primary c \<or> is_link c | None \<Rightarrow> False)"

text \<open>\<open>offline_search_tracker\<close> refuses every issue update and raises on every search.\<close>

definition offline_search_tracker :: "unit tracker" where
  "offline_search_tracker s c =
     (case c of
        Search q n f \<Rightarrow> (Raised, s)
      | _ \<Rightarrow> refusing_tracker s c)"

definition row_bridge :: row where
  "row_bridge = [''Summary'' \<mapsto> ''Build bridge'']"

text \<open>
  The components a run has asked the tracker to create: project id and lower-cased name
  of every component creation in a trace, oldest first.
\<close>

fun created_components :: "call list \<Rightarrow> (string \<times> string) list" where
  "created_components [] = []"
| "created_components (c # cs) =
     (case c of
        CreateComponent n p \<Rightarrow> (p, lower n) # created_components cs
      | _ \<Rightarrow> created_components cs)"

definition is_create_component :: "call \<Rightarrow> bool" where
  "is_create_component c = (case c of CreateComponent n p \<Rightarrow> True | _ \<Rightarrow> False)"

definition cc :: "'s jira \<Rightarrow> (string \<times> string) list" where
  "cc j = created_components (trace j)"

text \<open>
  What holds between two steps of a run: no component was created twice, and every
  component created is in the cache of its project. \<open>same_comp\<close> relates two states
  with the same created components and the same component cache.
\<close>

definition comp_inv :: "'s jira \<Rightarrow> bool" where
  "comp_inv j = (distinct (cc j) \<and> (\<forall>pk \<in> set (cc j). comp_map_of j (fst pk) (snd pk) \<noteq> None))"

definition same_comp :: "'s jira \<Rightarrow> 's jira \<Rightarrow> bool" where
  "same_comp j j' = (cc j' = cc j \<and> component_cache j' = component_cache j)"

definition comp_post :: "(error + 'a) \<times> 's jira \<Rightarrow> bool" where
  "comp_post res = (case res of (Inl e, j) \<Rightarrow> distinct (cc j) | (Inr x, j) \<Rightarrow> comp_inv j)"

definition run_post :: "(error + unit) \<times> 's run \<Rightarrow> bool" where
  "run_post res = (case res of (Inl e, st) \<Rightarrow> distinct (cc (conn st)) | (Inr u, st) \<Rightarrow> comp_inv (conn st))"

definition row_deck2 :: row where
  "row_deck2 = [''IssueKey'' \<mapsto> ''A-2'', ''Components'' \<mapsto> ''deck, Deck'']"

text \<open>The \<^verbatim>\<open>Jira\<close> object after the components of project 10 were listed, and after row \<open>row_deck\<close>.\<close>

definition jira_listed :: "unit jira" where
  "jira_listed = snd (list_project_components plain_tracker ''10'' (new_jira ()))"

definition jira_after_deck :: "unit jira" where
  "jira_after_deck = snd (build_fields plain_tracker env0 row_deck None (JProject ''10'') (new_jira ()))"

text \<open>
  Two environments: \<open>env0\<close> above is a Linux with glibc, where the year is not padded
  and \<^verbatim>\<open>fromisoformat\<close> is taken to reject everything; \<open>env_padding\<close> pads the
  year, and its \<^verbatim>\<open>fromisoformat\<close> knows one compact ISO date.
\<close>

definition iso_basic :: "string \<Rightarrow> date option" where
  "iso_basic s = (if s = ''20250809'' then Some (2025, 8, 9) else None)"

definition env_padding :: pyenv where
  "env_padding = \<lparr>fromisoformat = iso_basic, pads_year = True,
                   epic_link_field = ''customfield_10014''\<rparr>"


text \<open>\<open>gateway_tracker\<close> answers every call with status 502 and a page that is not JSON.\<close>

definition gateway_tracker :: "unit tracker" where
  "gateway_tracker s c = (Reply 502 JText, s)"

section \<open>Issue resolution by summary\<close>

lemma exact_match_first:
  "i < length issues \<Longrightarrow> exact_hit q (issues ! i) \<Longrightarrow> \<forall>k < i. \<not> exact_hit q (issues ! k)
   \<Longrightarrow> exact_match q issues = Some (issue_key (issues ! i))"
proof (induction issues arbitrary: i)
  case Nil
  then show ?case by simp
next
  case (Cons it issues)
  show ?case
  proof (cases i)
    case 0
    with Cons.prems show ?thesis by (simp add: exact_hit_def)
  next
    case (Suc n)
    with Cons.prems have "\<not> exact_hit q it" by auto
    moreover have "exact_match q issues = Some (issue_key (issues ! n))"
      using Cons.prems Suc by (intro Cons.IH) auto
    ultimately show ?thesis using Suc by (simp add: exact_hit_def)
  qed
qed

lemma exact_match_none:
  "\<forall>it \<in> set issues. \<not> exact_hit q it \<Longrightarrow> exact_match q issues = None"
  by (induction issues) (auto simp: exact_hit_def)

lemma search_reply:
  assumes "rsp (remote j) (search_call pk q) = (Reply code (JIssues issues), s')" and "ok code"
  shows "search_issue_by_summary rsp pk q j =
           (Inr (select_issue q issues), j\<lparr>remote := s', trace := trace j @ [search_call pk q]\<rparr>)"
  using assms by (simp add: search_issue_by_summary_def request_def)

text \<open>
  C2. When the search succeeds with a result set, \<^verbatim>\<open>search_issue_by_summary\<close>
  returns the key of the first issue whose summary equals the query up to case and outer
  whitespace, wherever that issue stands in the set; without such an issue it returns
  the key of the first issue of the set, and \<open>None\<close> on an empty set. The one call it
  sends asks for at most 5 results.
\<close>

theorem resolver_selects:
  assumes "rsp (remote j) (search_call pk q) = (Reply code (JIssues issues), s')" and "ok code"
  shows "(\<forall>i < length issues. exact_hit q (issues ! i) \<and> (\<forall>k < i. \<not> exact_hit q (issues ! k))
            \<longrightarrow> fst (search_issue_by_summary rsp pk q j) = Inr (Some (issue_key (issues ! i))))
       \<and> (issues \<noteq> [] \<and> (\<forall>it \<in> set issues. \<not> exact_hit q it)
            \<longrightarrow> fst (search_issue_by_summary rsp pk q j) = Inr (Some (issue_key (hd issues))))
       \<and> (issues = [] \<longrightarrow> fst (search_issue_by_summary rsp pk q j) = Inr None)
       \<and> trace (snd (search_issue_by_summary rsp pk q j))
           = trace j @ [Search (search_jql pk q) 5 [''summary'', ''issuetype'']]"
proof -
  note r = search_reply[where rsp=rsp and j=j, OF assms]
  have a: "\<forall>i < length issues. exact_hit q (issues ! i) \<and> (\<forall>k < i. \<not> exact_hit q (issues ! k))
            \<longrightarrow> fst (search_issue_by_summary rsp pk q j) = Inr (Some (issue_key (issues ! i)))"
    by (simp add: r select_issue_def exact_match_first)
  have b: "issues \<noteq> [] \<and> (\<forall>it \<in> set issues. \<not> exact_hit q it)
            \<longrightarrow> fst (search_issue_by_summary rsp pk q j) = Inr (Some (issue_key (hd issues)))"
    by (cases issues) (auto simp: r select_issue_def exact_match_none)
  have c: "issues = [] \<longrightarrow> fst (search_issue_by_summary rsp pk q j) = Inr None"
    by (simp add: r select_issue_def)
  have d: "trace (snd (search_issue_by_summary rsp pk q j))
           = trace j @ [Search (search_jql pk q) 5 [''summary'', ''issuetype'']]"
    by (simp add: r search_call_def)
  from a b c d show ?thesis by blast
qed

theorem resolver_selects_witness:
  "bridge_tracker (remote (new_jira ())) (search_call ''P'' ''Build bridge'')
     = (Reply 200 (JIssues [\<lparr>issue_key = ''P-9'', issue_summary = ''Build bridge deck''\<rparr>,
                            \<lparr>issue_key = ''P-7'', issue_summary = '' build Bridge ''\<rparr>]), ())
   \<and> ok 200
   \<and> fst (search_issue_by_summary bridge_tracker ''P'' ''Build bridge'' (new_jira ()))
       = Inr (Some ''P-7'')"
proof -
  let ?issues = "[\<lparr>issue_key = ''P-9'', issue_summary = ''Build bridge deck''\<rparr>,
                  \<lparr>issue_key = ''P-7'', issue_summary = '' build Bridge ''\<rparr>]"
  have h1: "bridge_tracker (remote (new_jira ())) (search_call ''P'' ''Build bridge'')
              = (Reply 200 (JIssues ?issues), ())"
    by (simp add: bridge_tracker_def)
  have h2: "ok 200" by (simp add: ok_def)
  have hit: "exact_hit ''Build bridge'' (?issues ! 1)" by code_simp
  have miss: "\<forall>k < (1::nat). \<not> exact_hit ''Build bridge'' (?issues ! k)"
  proof -
    have "\<not> exact_hit ''Build bridge'' (?issues ! 0)" by code_simp
    then show ?thesis by simp
  qed
  from resolver_selects[where rsp=bridge_tracker and j="new_jira ()", OF h1 h2] hit miss
  have "fst (search_issue_by_summary bridge_tracker ''P'' ''Build bridge'' (new_jira ()))
          = Inr (Some (issue_key (?issues ! 1)))"
    by (metis One_nat_def length_Cons lessI list.size(3) zero_less_Suc less_Suc_eq)
  then show ?thesis using h1 h2 by simp
qed


section \<open>The calls a step of ColumnUpdater sends\<close>

lemma request_snd:
  "snd (request rsp c j) = j\<lparr>remote := snd (rsp (remote j) c), trace := trace j @ [c]\<rparr>"
  by (simp add: request_def Let_def split: prod.splits reply.splits)

lemma request_trace: "trace (snd (request rsp c j)) = trace j @ [c]"
  by (simp add: request_snd)




lemma update_step_updated:
  "updated (update_step rsp a key fs st) = updated st
   \<or> updated (update_step rsp a key fs st) = Suc (updated st)"
  by (simp add: update_step_def split: prod.splits sum.splits)



lemma link_deps_updated: "updated (link_deps rsp a key deps st) = updated st"
  by (induction deps arbitrary: st) (auto split: prod.splits sum.splits direction.splits)

lemma process_row_updated:
  "updated (snd (process_row rsp env a project r st)) \<le> Suc (updated st)"
proof -
  have "updated (update_step rsp a key fs (st\<lparr>conn := j\<rparr>)) \<le> Suc (updated st)" for key fs j
    using update_step_updated[of rsp a key fs "st\<lparr>conn := j\<rparr>"] by auto
  then show ?thesis
    by (auto simp: process_row_def link_deps_updated split: prod.splits sum.splits option.splits)
qed

section \<open>The row cap\<close>

lemma rows_loop_updated:
  assumes "max_arg a = Some n" and "0 < n"
  shows "int (updated st) \<le> n \<Longrightarrow> int (updated (snd (rows_loop rsp env a project rows st))) \<le> n"
proof (induction rows arbitrary: st)
  case Nil
  then show ?case by simp
next
  case (Cons r rows)
  show ?case
  proof (cases "cap_reached a st")
    case True
    with Cons.prems show ?thesis by simp
  next
    case False
    with assms have below: "int (updated st) < n" by (simp add: cap_reached_def)
    obtain res st' where p: "process_row rsp env a project r st = (res, st')"
      by (cases "process_row rsp env a project r st")
    have "updated st' \<le> Suc (updated st)"
      using process_row_updated[of rsp env a project r st] p by simp
    with below have le: "int (updated st') \<le> n" by linarith
    show ?thesis
    proof (cases res)
      case (Inl e)
      with False p le show ?thesis by simp
    next
      case (Inr u)
      with False p Cons.IH[OF le] show ?thesis by simp
    qed
  qed
qed

text \<open>
  C9, amended. The cap of \<^verbatim>\<open>--max N\<close> (N positive) is tested before each row against the
  number of rows updated so far, not against the number of rows begun: when N rows have
  been updated the loop stops and no further row begins, so at most N rows are updated.
  Rows that are skipped, or whose update fails, do not count towards N.
\<close>

theorem cap_bounds_updates:
  assumes "max_arg a = Some n" and "0 < n"
  shows "int (updated (snd (column_updater_main rsp env a rows s))) \<le> n
       \<and> (\<forall>project rest st. n \<le> int (updated st)
            \<longrightarrow> rows_loop rsp env a project rest st = (Inr (), st))"
proof -
  have "int (updated (snd (column_updater_main rsp env a rows s))) \<le> n"
  proof (cases "get_project_meta rsp (project_key a) (new_jira s)")
    case (Pair res j)
    show ?thesis
    proof (cases res)
      case (Inl e)
      with Pair assms show ?thesis by (simp add: column_updater_main_def start_def)
    next
      case (Inr project)
      have "int (updated (start j)) \<le> n" using assms by (simp add: start_def)
      from rows_loop_updated[OF assms this] Pair Inr show ?thesis
        by (simp add: column_updater_main_def)
    qed
  qed
  moreover have "rows_loop rsp env a project rest st = (Inr (), st)"
    if "n \<le> int (updated st)" for project rest and st :: "'a run"
    using that assms by (cases rest) (simp_all add: cap_reached_def)
  ultimately show ?thesis by blast
qed

theorem cap_bounds_updates_witness:
  "max_arg capped_args = Some 1 \<and> (0::int) < 1
   \<and> int (updated (snd (column_updater_main plain_tracker env0 capped_args
                           [row_a1, row_a2, row_a2] ()))) \<le> 1
   \<and> updated (snd (column_updater_main plain_tracker env0 capped_args
                      [row_a1, row_a2, row_a2] ())) = 1"
proof -
  have h1: "max_arg capped_args = Some 1" by (simp add: capped_args_def live_args_def)
  have h2: "(0::int) < 1" by simp
  have run: "updated (snd (column_updater_main plain_tracker env0 capped_args
                             [row_a1, row_a2, row_a2] ())) = 1"
    by code_simp
  from cap_bounds_updates[where rsp=plain_tracker and rows="[row_a1, row_a2, row_a2]" and s="()"
         and env=env0, OF h1 h2] h1 h2 run
  show ?thesis by blast
qed

text \<open>
  C9 as stated fails: under \<^verbatim>\<open>--max 1\<close> two rows are begun (and counted as skipped),
  since a skipped row does not count towards the cap.
\<close>

theorem cap_counterexample:
  "max_arg capped_args = Some 1
   \<and> skipped (snd (column_updater_main plain_tracker env0 capped_args [row_blank, row_blank] ())) = 2"
  by code_simp


section \<open>The steps of one row\<close>


lemma process_row_hit:
  assumes "fst (resolve_key rsp a r (conn st)) = Inr (Some key)"
    and "fst (build_fields rsp env r (startdate_field a) project
                (snd (resolve_key rsp a r (conn st)))) = Inr fs"
  shows "process_row rsp env a project r st
           = (Inr (), link_deps rsp a key (deps_of r)
                        (update_step rsp a key fs
                           (st\<lparr>conn := snd (build_fields rsp env r (startdate_field a) project
                                                 (snd (resolve_key rsp a r (conn st))))\<rparr>)))"
proof -
  obtain j1 where r1: "resolve_key rsp a r (conn st) = (Inr (Some key), j1)"
    using assms(1) by (cases "resolve_key rsp a r (conn st)") simp
  obtain j2 where r2: "build_fields rsp env r (startdate_field a) project j1 = (Inr fs, j2)"
    using assms(2) r1 by (cases "build_fields rsp env r (startdate_field a) project j1") simp
  show ?thesis by (simp add: process_row_def r1 r2)
qed






section \<open>Dry run\<close>

text \<open>
  C3 fails on the code. With \<^verbatim>\<open>--dry-run\<close>, a row naming a component the project does
  not have makes \<^verbatim>\<open>build_fields\<close> create that component on the tracker: the run
  sends a mutating call, although the script documents the flag as printing actions
  without updating anything.
\<close>

theorem dry_run_creates_component:
  "dry_run dry_args
   \<and> trace (conn (snd (column_updater_main plain_tracker env0 dry_args [row_deck] ())))
       = [GetProject ''P'', ListComponents ''10'', CreateComponent ''Deck'' ''10'']
   \<and> list_ex is_mutating
       (trace (conn (snd (column_updater_main plain_tracker env0 dry_args [row_deck] ()))))"
  by code_simp


section \<open>The calls a step of the Importer sends\<close>

lemma sent_frame [simp]:
  "sent (st\<lparr>created := cr\<rparr>) = sent st"
  "sent (st\<lparr>pending_links := pl\<rparr>) = sent st"
  "sent (st\<lparr>current_parent := cp\<rparr>) = sent st"
  "sent (st\<lparr>made := md\<rparr>) = sent st"
  by (simp_all add: sent_def)

lemma sent_new_importer [simp]: "sent (new_importer s) = []"
  by (simp add: sent_def new_importer_def)

lemma exchange_snd:
  "snd (exchange rsp c st)
     = st\<lparr>peer := snd (rsp (peer st) c), wire := wire st @ [(c, fst (rsp (peer st) c))]\<rparr>"
  by (simp add: exchange_def split: prod.splits)

lemma exchange_fst: "fst (exchange rsp c st) = fst (rsp (peer st) c)"
  by (simp add: exchange_def split: prod.splits)

lemma exchange_sent: "sent (snd (exchange rsp c st)) = sent st @ [c]"
  by (simp add: exchange_snd sent_def)

lemma post_attempts_snd:
  "\<exists>p w. snd (post_attempts rsp c n st) = st\<lparr>peer := p, wire := wire st @ w\<rparr>"
proof (induction n arbitrary: st)
  case 0
  obtain r st' where e: "exchange rsp c st = (r, st')" by (cases "exchange rsp c st")
  then have s: "st' = st\<lparr>peer := snd (rsp (peer st) c),
                          wire := wire st @ [(c, fst (rsp (peer st) c))]\<rparr>"
    using exchange_snd[of rsp c st] by simp
  have "snd (post_attempts rsp c 0 st) = st'"
    using e by (cases r) simp_all
  with s have "snd (post_attempts rsp c 0 st)
                 = st\<lparr>peer := snd (rsp (peer st) c),
                      wire := wire st @ [(c, fst (rsp (peer st) c))]\<rparr>"
    by simp
  then show ?case by (intro exI)
next
  case (Suc n)
  obtain r st' where e: "exchange rsp c st = (r, st')" by (cases "exchange rsp c st")
  then have s: "st' = st\<lparr>peer := snd (rsp (peer st) c),
                          wire := wire st @ [(c, fst (rsp (peer st) c))]\<rparr>"
    using exchange_snd[of rsp c st] by simp
  from Suc.IH[of st'] obtain p w where
    i: "snd (post_attempts rsp c n st') = st'\<lparr>peer := p, wire := wire st' @ w\<rparr>" by blast
  have again: "snd (post_attempts rsp c n st')
                 = st\<lparr>peer := p, wire := wire st @ ((c, fst (rsp (peer st) c)) # w)\<rparr>"
    unfolding i by (simp add: s)
  have stop: "st' = st\<lparr>peer := snd (rsp (peer st) c),
                         wire := wire st @ [(c, fst (rsp (peer st) c))]\<rparr>"
    by (rule s)
  have "snd (post_attempts rsp c (Suc n) st) = snd (post_attempts rsp c n st')
        \<or> snd (post_attempts rsp c (Suc n) st) = st'"
    using e by (cases r) simp_all
  then show ?case
  proof
    assume "snd (post_attempts rsp c (Suc n) st) = snd (post_attempts rsp c n st')"
    with again have "snd (post_attempts rsp c (Suc n) st)
                       = st\<lparr>peer := p, wire := wire st @ ((c, fst (rsp (peer st) c)) # w)\<rparr>"
      by simp
    then show ?thesis by (intro exI)
  next
    assume "snd (post_attempts rsp c (Suc n) st) = st'"
    with stop have "snd (post_attempts rsp c (Suc n) st)
                      = st\<lparr>peer := snd (rsp (peer st) c),
                           wire := wire st @ [(c, fst (rsp (peer st) c))]\<rparr>"
      by simp
    then show ?thesis by (intro exI)
  qed
qed

lemma jira_post_sent:
  "sent (snd (jira_post rsp c dry st))
     = sent st @ (if dry then []
                  else if attempt_raises (fst (rsp (peer st) c)) then [c, c] else [c])"
proof (cases dry)
  case True
  then show ?thesis by (simp add: jira_post_def)
next
  case False
  obtain r st' where e: "exchange rsp c st = (r, st')" by (cases "exchange rsp c st")
  then have s: "sent st' = sent st @ [c]" and f: "r = fst (rsp (peer st) c)"
    using exchange_sent[of rsp c st] exchange_fst[of rsp c st] by simp_all
  obtain r2 st2 where e2: "exchange rsp c st' = (r2, st2)" by (cases "exchange rsp c st'")
  then have s2: "sent st2 = sent st' @ [c]"
    using exchange_sent[of rsp c st'] by simp
  have one: "MAX_RETRIES = Suc 0" by (simp add: MAX_RETRIES_def)
  show ?thesis
  proof (cases "attempt_raises r")
    case True
    then have "snd (jira_post rsp c dry st) = st2"
      using False e e2
      by (cases r; cases r2) (simp_all add: jira_post_def one attempt_raises_def)
    with True f s s2 False show ?thesis by simp
  next
    case no: False
    then have "snd (jira_post rsp c dry st) = st'"
      using False e by (cases r) (simp_all add: jira_post_def one attempt_raises_def)
    with no f s False show ?thesis by simp
  qed
qed

lemma jira_post_frame:
  "created (snd (jira_post rsp c dry st)) = created st
   \<and> pending_links (snd (jira_post rsp c dry st)) = pending_links st
   \<and> current_parent (snd (jira_post rsp c dry st)) = current_parent st
   \<and> made (snd (jira_post rsp c dry st)) = made st"
proof (cases dry)
  case True
  then show ?thesis by (simp add: jira_post_def)
next
  case False
  from post_attempts_snd[of rsp c MAX_RETRIES st] obtain p w where
    "snd (post_attempts rsp c MAX_RETRIES st) = st\<lparr>peer := p, wire := wire st @ w\<rparr>"
    by blast
  with False show ?thesis by (simp add: jira_post_def)
qed

lemma create_issue_snd:
  "snd (create_issue rsp fs dry st) = snd (jira_post rsp (CreateIssue fs) dry st)"
  by (simp add: create_issue_def split: prod.splits sum.splits)

lemma link_issue_snd:
  "snd (link_issue rsp x y dry st) = snd (jira_post rsp (CreateLink x y) dry st)"
  by (simp add: link_issue_def split: prod.splits sum.splits)

lemma jira_get_sent: "sent (snd (jira_get rsp c st)) = sent st @ [c]"
proof -
  have "snd (jira_get rsp c st) = snd (exchange rsp c st)"
    by (simp add: jira_get_def split: prod.splits reply.splits)
  then show ?thesis by (simp add: exchange_sent)
qed

lemma jira_delete_sent:
  "sent (snd (jira_delete rsp c dry st)) = sent st @ (if dry then [] else [c])"
proof (cases dry)
  case True
  then show ?thesis by (simp add: jira_delete_def)
next
  case False
  have "snd (jira_delete rsp c False st) = snd (exchange rsp c st)"
    by (simp add: jira_delete_def split: prod.splits reply.splits)
  with False show ?thesis by (simp add: exchange_sent)
qed

section \<open>Retries\<close>

text \<open>
  C8, amended. At most one retry is made for a call, and only after an attempt that
  raised a \<^verbatim>\<open>RequestException\<close>: the session raised, or the reply, of whatever
  status, has a body that is not JSON. A reply whose body is JSON or empty is returned
  without a retry, whatever its status. The retry belongs to \<^verbatim>\<open>jira_post\<close> of the
  Importer, so it covers both of its POSTs: issue creation and link creation. The
  Importer's GET and DELETE, and every call of the ColumnUpdater's \<^verbatim>\<open>Jira\<close> class,
  are sent once.
\<close>

theorem retry_scope:
  "sent (snd (create_issue rsp fs False st))
     = sent st @ (if attempt_raises (fst (rsp (peer st) (CreateIssue fs)))
                  then [CreateIssue fs, CreateIssue fs] else [CreateIssue fs])
   \<and> sent (snd (link_issue rsp x y False st))
       = sent st @ (if attempt_raises (fst (rsp (peer st) (CreateLink x y)))
                    then [CreateLink x y, CreateLink x y] else [CreateLink x y])
   \<and> sent (snd (jira_get rsp c st)) = sent st @ [c]
   \<and> sent (snd (jira_delete rsp c False st)) = sent st @ [c]
   \<and> trace (snd (request rsp' c j)) = trace j @ [c]"
  by (simp add: create_issue_snd link_issue_snd jira_post_sent jira_get_sent jira_delete_sent
        request_trace)

text \<open>
  Two replies with an error status: the one with a JSON body is returned at once, the
  one with a page that is not JSON is sent again and then raised.
\<close>

lemma error_status_examples:
  "sent (snd (create_issue rejecting_tracker [] False (new_importer ()))) = [CreateIssue []]
   \<and> fst (create_issue rejecting_tracker [] False (new_importer ())) = Inr None
   \<and> sent (snd (create_issue gateway_tracker [] False (new_importer ())))
       = [CreateIssue [], CreateIssue []]
   \<and> fst (create_issue gateway_tracker [] False (new_importer ()))
       = Inl (RequestException (CreateIssue []))"
  by code_simp

text \<open>
  C8 as stated fails: a link creation whose first attempt raises is sent a second time.
\<close>

theorem link_retry_counterexample:
  "sent (snd (link_issue flaky_tracker ''A-1'' ''A-2'' False (new_importer 0)))
     = [CreateLink ''A-1'' ''A-2'', CreateLink ''A-1'' ''A-2'']
   \<and> fst (link_issue flaky_tracker ''A-1'' ''A-2'' False (new_importer 0)) = Inr True"
  by code_simp


section \<open>Creation first, links after\<close>

lemma create_issue_frame:
  "created (snd (create_issue rsp fs dry st)) = created st
   \<and> pending_links (snd (create_issue rsp fs dry st)) = pending_links st
   \<and> current_parent (snd (create_issue rsp fs dry st)) = current_parent st
   \<and> made (snd (create_issue rsp fs dry st)) = made st"
  by (simp add: create_issue_snd jira_post_frame)

lemma link_issue_frame:
  "created (snd (link_issue rsp x y dry st)) = created st
   \<and> pending_links (snd (link_issue rsp x y dry st)) = pending_links st
   \<and> current_parent (snd (link_issue rsp x y dry st)) = current_parent st
   \<and> made (snd (link_issue rsp x y dry st)) = made st"
  by (simp add: link_issue_snd jira_post_frame)

lemma create_issue_no_link:
  assumes "list_all (\<lambda>c. \<not> is_link c) (sent st)"
  shows "list_all (\<lambda>c. \<not> is_link c) (sent (snd (create_issue rsp fs dry st)))"
  using assms by (simp add: create_issue_snd jira_post_sent is_link_def)

lemma note_dependency_sent: "sent (note_dependency r key st) = sent st"
  by (simp add: note_dependency_def Let_def split: option.splits)

lemma task_row_no_link:
  assumes "list_all (\<lambda>c. \<not> is_link c) (sent st)"
  shows "list_all (\<lambda>c. \<not> is_link c) (sent (snd (task_row rsp a idx r summary st)))"
proof -
  let ?c = "create_issue rsp (task_fields a r summary) (imp_dry_run a) st"
  have "sent (snd (task_row rsp a idx r summary st)) = sent (snd ?c)"
    by (cases ?c) (simp add: task_row_def Let_def split: sum.splits option.splits)
  with create_issue_no_link[OF assms] show ?thesis by simp
qed

lemma subtask_row_no_link:
  assumes "list_all (\<lambda>c. \<not> is_link c) (sent st)"
  shows "list_all (\<lambda>c. \<not> is_link c) (sent (snd (subtask_row rsp a idx r summary st)))"
proof (cases "case truthy (current_parent st) of None \<Rightarrow> None
            | Some p \<Rightarrow> (case created st p of None \<Rightarrow> None | Some pk \<Rightarrow> Some (p, pk))")
  case None
  with assms show ?thesis by (simp add: subtask_row_def)
next
  case (Some ppk)
  obtain p pk where ppk: "ppk = (p, pk)" by (cases ppk)
  let ?c = "create_issue rsp (subtask_fields a r summary pk) (imp_dry_run a) st"
  have "sent (snd (subtask_row rsp a idx r summary st)) = sent (snd ?c)"
    using Some ppk
    by (cases ?c) (simp add: subtask_row_def Let_def note_dependency_sent split: sum.splits option.splits)
  with create_issue_no_link[OF assms] show ?thesis by simp
qed

lemma import_row_no_link:
  assumes "list_all (\<lambda>c. \<not> is_link c) (sent st)"
  shows "list_all (\<lambda>c. \<not> is_link c) (sent (snd (import_row rsp a idx r st)))"
  using assms
  by (simp add: import_row_def task_row_no_link subtask_row_no_link split: option.splits)

lemma import_rows_no_link:
  "list_all (\<lambda>c. \<not> is_link c) (sent st)
   \<Longrightarrow> list_all (\<lambda>c. \<not> is_link c) (sent (snd (import_rows rsp a idx rows st)))"
proof (induction rows arbitrary: idx st)
  case Nil
  then show ?case by simp
next
  case (Cons r rows)
  obtain res st' where p: "import_row rsp a idx r st = (res, st')"
    by (cases "import_row rsp a idx r st")
  have nl: "list_all (\<lambda>c. \<not> is_link c) (sent st')"
    using import_row_no_link[OF Cons.prems, of rsp a idx r] p by simp
  show ?case
  proof (cases res)
    case (Inl e)
    with p nl show ?thesis by simp
  next
    case (Inr u)
    with p Cons.IH[OF nl] show ?thesis by simp
  qed
qed

lemma link_pending_sent:
  "\<exists>ys. sent (snd (link_pending rsp a links st)) = sent st @ ys \<and> list_all is_link ys"
proof (induction links arbitrary: st)
  case Nil
  then show ?case by simp
next
  case (Cons l links)
  obtain dep_key tgt_key where l: "l = (dep_key, tgt_key)" by (cases l)
  obtain res st' where p: "link_issue rsp dep_key tgt_key (imp_dry_run a) st = (res, st')"
    by (cases "link_issue rsp dep_key tgt_key (imp_dry_run a) st")
  have "sent st' = sent (snd (jira_post rsp (CreateLink dep_key tgt_key) (imp_dry_run a) st))"
    using p link_issue_snd[of rsp dep_key tgt_key "imp_dry_run a" st] by simp
  then obtain xs where xs: "sent st' = sent st @ xs" "list_all is_link xs"
    by (simp add: jira_post_sent is_link_def)
  show ?case
  proof (cases res)
    case (Inl e)
    with p l xs show ?thesis by simp
  next
    case (Inr linked_ok)
    from Cons.IH[of st'] obtain ys where
      ys: "sent (snd (link_pending rsp a links st')) = sent st' @ ys" "list_all is_link ys"
      by blast
    with Inr p l xs have "sent (snd (link_pending rsp a (l # links) st)) = sent st @ (xs @ ys)
        \<and> list_all is_link (xs @ ys)"
      by simp
    then show ?thesis by blast
  qed
qed

lemma links_last_append:
  assumes "list_all (\<lambda>c. \<not> is_link c) xs" and "list_all is_link ys"
  shows "links_last (xs @ ys)"
proof -
  have "dropWhile (\<lambda>c. \<not> is_link c) (xs @ ys) = dropWhile (\<lambda>c. \<not> is_link c) ys"
    using assms(1) by (simp add: list_all_iff dropWhile_append)
  moreover have "list_all (\<lambda>c. \<not> is_primary c) (dropWhile (\<lambda>c. \<not> is_link c) ys)"
  proof -
    have "set (dropWhile (\<lambda>c. \<not> is_link c) ys) \<subseteq> set ys" by (rule set_dropWhileD[THEN subsetI]) 
    moreover have "\<not> is_primary c" if "is_link c" for c
      using that by (cases c) (simp_all add: is_link_def is_primary_def)
    ultimately show ?thesis using assms(2) by (auto simp: list_all_iff)
  qed
  ultimately show ?thesis by (simp add: links_last_def)
qed

text \<open>
  C1, amended. In the Importer no link creation is sent during the creation pass, and in
  the whole run every issue creation comes before every link creation: the pairs found
  during the pass wait in \<^verbatim>\<open>pending_links\<close> and are submitted when the pass is over.
\<close>

theorem importer_links_after_creation:
  "list_all (\<lambda>c. \<not> is_link c) (sent (snd (import_rows rsp a 1 rows (new_importer s))))
   \<and> links_last (sent (snd (importer_main rsp a rows s)))"
proof -
  let ?r = "import_rows rsp a 1 rows (new_importer s)"
  have nl: "list_all (\<lambda>c. \<not> is_link c) (sent (snd ?r))"
    by (rule import_rows_no_link) simp
  obtain res st where r: "?r = (res, st)" by (cases ?r)
  have "links_last (sent (snd (importer_main rsp a rows s)))"
  proof (cases res)
    case (Inl e)
    with r nl have "links_last (sent st @ [])"
      by (intro links_last_append) simp_all
    with Inl r show ?thesis by (simp add: importer_main_def)
  next
    case (Inr u)
    from link_pending_sent[of rsp a "pending_links st" st] obtain ys where
      ys: "sent (snd (link_pending rsp a (pending_links st) st)) = sent st @ ys" "list_all is_link ys"
      by blast
    with r nl have "links_last (sent st @ ys)"
      by (intro links_last_append) simp_all
    with Inr r ys show ?thesis by (simp add: importer_main_def)
  qed
  with nl show ?thesis by simp
qed

text \<open>
  C1 as stated fails twice. The ColumnUpdater links row A-1 to A-2 before the update of
  row A-2 is attempted. In the Importer, the sub-task Design depends on task B, which
  the batch creates later: the dependency is dropped and no link is ever sent, while the
  dependency of Approval on the earlier task A is linked.
\<close>

theorem two_phase_counterexample:
  "trace (conn (snd (column_updater_main plain_tracker env0 live_args [row_a1, row_a2] ())))
     = [GetProject ''P'', UpdateIssue ''A-1'' [], CreateLink ''A-1'' ''A-2'', UpdateIssue ''A-2'' []]
   \<and> \<not> links_last
         (trace (conn (snd (column_updater_main plain_tracker env0 live_args [row_a1, row_a2] ()))))
   \<and> pending_links (snd (importer_main numbering_tracker import_live
                            [task_a, sub_design, sub_approval, task_b] 0))
       = [(''T-0'', ''T-2'')]
   \<and> filter is_link (sent (snd (importer_main numbering_tracker import_live
                                   [task_a, sub_design, sub_approval, task_b] 0)))
       = [CreateLink ''T-0'' ''T-2'']"
  by code_simp


section \<open>Parents of sub-tasks\<close>

lemma get_put_field:
  "get_field (put_field k v fs) k' = (if k' = k then Some v else get_field fs k')"
  by (induction fs) auto

lemma parents_ok_snoc:
  "parents_ok cur (es @ [(idx, ty, fs, key)])
     = (parents_ok cur es
        \<and> (ty = ''Task''
           \<or> (last_task cur es \<noteq> None \<and> get_field fs ''parent'' = map_option FKey (last_task cur es))))"
  by (induction cur es rule: parents_ok.induct) auto

lemma last_task_snoc:
  "last_task cur (es @ [(idx, ty, fs, key)])
     = (if ty = ''Task'' then Some key else last_task cur es)"
  by (induction cur es rule: last_task.induct) auto

lemma subtask_fields_parent:
  assumes "JIRA_START_DATE_FIELD a \<noteq> Some ''parent''"
  shows "get_field (subtask_fields a r summary pk) ''parent'' = Some (FKey pk)"
  using assms
  by (auto simp: subtask_fields_def dated_def Let_def get_put_field truthy_def
           split: option.splits if_splits)

lemma note_dependency_frame:
  "made (note_dependency r key st) = made st"
  "created (note_dependency r key st) = created st"
  "current_parent (note_dependency r key st) = current_parent st"
  by (simp_all add: note_dependency_def Let_def split: option.splits)

lemma task_row_inv:
  assumes "parent_inv st"
  shows "parent_inv (snd (task_row rsp a idx r summary st))"
proof -
  let ?fs = "task_fields a r summary"
  let ?c = "create_issue rsp ?fs (imp_dry_run a) st"
  obtain res st' where c: "?c = (res, st')" by (cases ?c)
  have fr: "created st' = created st" "current_parent st' = current_parent st" "made st' = made st"
    using create_issue_frame[of rsp ?fs "imp_dry_run a" st] c by simp_all
  have inv': "parent_inv st'"
    unfolding parent_inv_def fr using assms unfolding parent_inv_def .
  show ?thesis
  proof (cases res)
    case (Inl e)
    with c inv' show ?thesis by (simp add: task_row_def)
  next
    case (Inr key)
    show ?thesis
    proof (cases "truthy key")
      case None
      with Inr c inv' show ?thesis by (simp add: task_row_def)
    next
      case (Some k)
      with Inr c have "snd (task_row rsp a idx r summary st)
          = st'\<lparr>created := (created st')(summary \<mapsto> k), current_parent := Some summary,
                made := made st' @ [(idx, ''Task'', ?fs, k)]\<rparr>"
        by (simp add: task_row_def)
      with inv' show ?thesis
        by (auto simp: parent_inv_def parents_ok_snoc last_task_snoc truthy_def split: if_splits)
    qed
  qed
qed

lemma subtask_row_inv:
  assumes "parent_inv st" and "JIRA_START_DATE_FIELD a \<noteq> Some ''parent''"
  shows "parent_inv (snd (subtask_row rsp a idx r summary st))"
proof (cases "case truthy (current_parent st) of None \<Rightarrow> None
            | Some p \<Rightarrow> (case created st p of None \<Rightarrow> None | Some pk \<Rightarrow> Some (p, pk))")
  case None
  with assms show ?thesis by (simp add: subtask_row_def)
next
  case (Some ppk)
  obtain p pk where ppk: "ppk = (p, pk)" by (cases ppk)
  with Some have cp: "truthy (current_parent st) = Some p" and cr: "created st p = Some pk"
    by (auto split: option.splits)
  from assms(1) cp cr have lt: "last_task None (made st) = Some pk"
    unfolding parent_inv_def by blast
  let ?fs = "subtask_fields a r summary pk"
  let ?c = "create_issue rsp ?fs (imp_dry_run a) st"
  obtain res st' where c: "?c = (res, st')" by (cases ?c)
  have fr: "created st' = created st" "current_parent st' = current_parent st" "made st' = made st"
    using create_issue_frame[of rsp ?fs "imp_dry_run a" st] c by simp_all
  have inv': "parent_inv st'"
    unfolding parent_inv_def fr using assms(1) unfolding parent_inv_def .
  show ?thesis
  proof (cases res)
    case (Inl e)
    with c inv' Some ppk show ?thesis by (simp add: subtask_row_def)
  next
    case (Inr key)
    show ?thesis
    proof (cases "truthy key")
      case None
      with Inr c inv' Some ppk show ?thesis by (simp add: subtask_row_def)
    next
      case (Some k)
      let ?st2 = "st'\<lparr>created := (created st')(p @ '':'' @ summary \<mapsto> k),
                      made := made st' @ [(idx, ''Sub-task'', ?fs, k)]\<rparr>"
      have eq: "snd (subtask_row rsp a idx r summary st) = note_dependency r k ?st2"
        using Some Inr c \<open>(case truthy (current_parent st) of None \<Rightarrow> None
            | Some p \<Rightarrow> (case created st p of None \<Rightarrow> None | Some pk \<Rightarrow> Some (p, pk))) = Some ppk\<close> ppk
        by (simp add: subtask_row_def)
      have ne: "p @ '':'' @ summary \<noteq> p" by simp
      have st2: "parent_inv ?st2"
        unfolding parent_inv_def
      proof (intro conjI allI impI)
        show "parents_ok None (made ?st2)"
          using inv' lt fr subtask_fields_parent[OF assms(2), of r summary pk]
          by (simp add: parent_inv_def parents_ok_snoc)
      next
        fix q qk
        assume h: "truthy (current_parent ?st2) = Some q \<and> created ?st2 q = Some qk"
        with cp fr have "q = p" by simp
        with h ne cr fr have "qk = pk" by (simp split: if_splits)
        with lt fr show "last_task None (made ?st2) = Some qk"
          by (simp add: last_task_snoc)
      qed
      have nd: "made (note_dependency r k ?st2) = made ?st2"
        "created (note_dependency r k ?st2) = created ?st2"
        "current_parent (note_dependency r k ?st2) = current_parent ?st2"
        by (rule note_dependency_frame)+
      have "parent_inv (note_dependency r k ?st2)"
        unfolding parent_inv_def nd using st2 unfolding parent_inv_def .
      with eq show ?thesis by simp
    qed
  qed
qed

lemma import_row_inv:
  assumes "parent_inv st" and "JIRA_START_DATE_FIELD a \<noteq> Some ''parent''"
  shows "parent_inv (snd (import_row rsp a idx r st))"
  using assms
  by (simp add: import_row_def task_row_inv subtask_row_inv split: option.splits)

lemma import_rows_inv:
  assumes "JIRA_START_DATE_FIELD a \<noteq> Some ''parent''"
  shows "parent_inv st \<Longrightarrow> parent_inv (snd (import_rows rsp a idx rows st))"
proof (induction rows arbitrary: idx st)
  case Nil
  then show ?case by simp
next
  case (Cons r rows)
  obtain res st' where p: "import_row rsp a idx r st = (res, st')"
    by (cases "import_row rsp a idx r st")
  have inv': "parent_inv st'"
    using import_row_inv[OF Cons.prems assms, of rsp idx r] p by simp
  show ?case
  proof (cases res)
    case (Inl e)
    with p inv' show ?thesis by simp
  next
    case (Inr u)
    with p Cons.IH[OF inv'] show ?thesis by simp
  qed
qed

text \<open>The record of created issues follows the rows of type Task and Sub-task.\<close>

lemma task_row_made:
  "made (snd (task_row rsp a idx r summary st)) = made st
   \<or> (fst (task_row rsp a idx r summary st) = Inr ()
      \<and> (\<exists>fs k. made (snd (task_row rsp a idx r summary st)) = made st @ [(idx, ''Task'', fs, k)]))"
proof -
  let ?c = "create_issue rsp (task_fields a r summary) (imp_dry_run a) st"
  obtain res st' where c: "?c = (res, st')" by (cases ?c)
  have fr: "made st' = made st"
    using create_issue_frame[of rsp "task_fields a r summary" "imp_dry_run a" st] c by simp
  show ?thesis using c fr
    by (cases res) (auto simp: task_row_def split: option.splits)
qed

lemma task_row_made_ok:
  "fst (task_row rsp a idx r summary st) = Inr u
   \<Longrightarrow> \<exists>fs k. made (snd (task_row rsp a idx r summary st)) = made st @ [(idx, ''Task'', fs, k)]"
proof -
  let ?c = "create_issue rsp (task_fields a r summary) (imp_dry_run a) st"
  assume ok: "fst (task_row rsp a idx r summary st) = Inr u"
  obtain res st' where c: "?c = (res, st')" by (cases ?c)
  have fr: "made st' = made st"
    using create_issue_frame[of rsp "task_fields a r summary" "imp_dry_run a" st] c by simp
  show ?thesis using c fr ok
    by (cases res) (auto simp: task_row_def split: option.splits)
qed

lemma subtask_row_made:
  "made (snd (subtask_row rsp a idx r summary st)) = made st
   \<or> (fst (subtask_row rsp a idx r summary st) = Inr ()
      \<and> (\<exists>fs k. made (snd (subtask_row rsp a idx r summary st))
                  = made st @ [(idx, ''Sub-task'', fs, k)]))"
proof (cases "case truthy (current_parent st) of None \<Rightarrow> None
            | Some p \<Rightarrow> (case created st p of None \<Rightarrow> None | Some pk \<Rightarrow> Some (p, pk))")
  case None
  then show ?thesis by (simp add: subtask_row_def)
next
  case (Some ppk)
  obtain p pk where ppk: "ppk = (p, pk)" by (cases ppk)
  let ?c = "create_issue rsp (subtask_fields a r summary pk) (imp_dry_run a) st"
  obtain res st' where c: "?c = (res, st')" by (cases ?c)
  have fr: "made st' = made st"
    using create_issue_frame[of rsp "subtask_fields a r summary pk" "imp_dry_run a" st] c by simp
  note nd = note_dependency_frame(1)
  show ?thesis using c fr Some ppk
    by (cases res) (auto simp: subtask_row_def nd split: option.splits)
qed

lemma subtask_row_made_ok:
  "fst (subtask_row rsp a idx r summary st) = Inr u
   \<Longrightarrow> \<exists>fs k. made (snd (subtask_row rsp a idx r summary st)) = made st @ [(idx, ''Sub-task'', fs, k)]"
proof (cases "case truthy (current_parent st) of None \<Rightarrow> None
            | Some p \<Rightarrow> (case created st p of None \<Rightarrow> None | Some pk \<Rightarrow> Some (p, pk))")
  case None
  assume "fst (subtask_row rsp a idx r summary st) = Inr u"
  with None show ?thesis by (simp add: subtask_row_def)
next
  case (Some ppk)
  assume ok: "fst (subtask_row rsp a idx r summary st) = Inr u"
  obtain p pk where ppk: "ppk = (p, pk)" by (cases ppk)
  let ?c = "create_issue rsp (subtask_fields a r summary pk) (imp_dry_run a) st"
  obtain res st' where c: "?c = (res, st')" by (cases ?c)
  have fr: "made st' = made st"
    using create_issue_frame[of rsp "subtask_fields a r summary pk" "imp_dry_run a" st] c by simp
  note nd = note_dependency_frame(1)
  show ?thesis using c fr Some ppk ok
    by (cases res) (auto simp: subtask_row_def nd split: option.splits)
qed

lemma import_row_made_ok:
  assumes "fst (import_row rsp a idx r st) = Inr u"
  shows "map row_and_type (made (snd (import_row rsp a idx r st)))
           = map row_and_type (made st) @ take 1 (typed_rows idx [r])"
proof -
  from assms obtain summary ty where s: "r ''Summary'' = Some summary" and t: "r ''Issue Type'' = Some ty"
    by (auto simp: import_row_def split: option.splits)
  show ?thesis
  proof (cases "ty = ''Task''")
    case True
    with s t assms have "fst (task_row rsp a idx r summary st) = Inr u"
      by (simp add: import_row_def)
    from task_row_made_ok[OF this] True s t show ?thesis
      by (auto simp: import_row_def row_and_type_def)
  next
    case False
    show ?thesis
    proof (cases "ty = ''Sub-task''")
      case True
      with s t assms have "fst (subtask_row rsp a idx r summary st) = Inr u"
        by (simp add: import_row_def)
      from subtask_row_made_ok[OF this] True s t show ?thesis
        by (auto simp: import_row_def row_and_type_def)
    next
      case False
      with \<open>ty \<noteq> ''Task''\<close> s t show ?thesis by (simp add: import_row_def)
    qed
  qed
qed

lemma import_row_made_err:
  assumes "fst (import_row rsp a idx r st) = Inl e"
  shows "made (snd (import_row rsp a idx r st)) = made st"
proof (cases "r ''Summary''")
  case None
  then show ?thesis by (simp add: import_row_def)
next
  case (Some summary)
  show ?thesis
  proof (cases "r ''Issue Type''")
    case None
    with Some show ?thesis by (simp add: import_row_def)
  next
    case (Some ty)
    with \<open>r ''Summary'' = Some summary\<close> assms
      task_row_made[of rsp a idx r summary st] subtask_row_made[of rsp a idx r summary st]
    show ?thesis by (auto simp: import_row_def split: if_splits)
  qed
qed

lemma typed_rows_single: "typed_rows idx (r # rows) = take 1 (typed_rows idx [r]) @ typed_rows (Suc idx) rows"
  by simp

lemma import_rows_made:
  "\<exists>n. map row_and_type (made (snd (import_rows rsp a idx rows st)))
          = map row_and_type (made st) @ take n (typed_rows idx rows)
       \<and> (fst (import_rows rsp a idx rows st) = Inr () \<longrightarrow> length (typed_rows idx rows) \<le> n)"
proof (induction rows arbitrary: idx st)
  case Nil
  then show ?case by simp
next
  case (Cons r rows)
  obtain res st' where p: "import_row rsp a idx r st = (res, st')"
    by (cases "import_row rsp a idx r st")
  show ?case
  proof (cases res)
    case (Inl e)
    with p have "made st' = made st"
      using import_row_made_err[of rsp a idx r st e] by simp
    with Inl p have "map row_and_type (made (snd (import_rows rsp a idx (r # rows) st)))
          = map row_and_type (made st) @ take 0 (typed_rows idx (r # rows))
       \<and> (fst (import_rows rsp a idx (r # rows) st) = Inr ()
            \<longrightarrow> length (typed_rows idx (r # rows)) \<le> 0)"
      by simp
    then show ?thesis by blast
  next
    case (Inr u)
    with p have m: "map row_and_type (made st')
                      = map row_and_type (made st) @ take 1 (typed_rows idx [r])"
      using import_row_made_ok[of rsp a idx r st u] by simp
    from Cons.IH[of "Suc idx" st'] obtain n where
      n: "map row_and_type (made (snd (import_rows rsp a (Suc idx) rows st')))
            = map row_and_type (made st') @ take n (typed_rows (Suc idx) rows)"
         "fst (import_rows rsp a (Suc idx) rows st') = Inr ()
            \<longrightarrow> length (typed_rows (Suc idx) rows) \<le> n"
      by blast
    let ?k = "length (take 1 (typed_rows idx [r])) + n"
    have t: "take ?k (typed_rows idx (r # rows))
               = take 1 (typed_rows idx [r]) @ take n (typed_rows (Suc idx) rows)"
      by (subst typed_rows_single) simp
    have "map row_and_type (made (snd (import_rows rsp a idx (r # rows) st)))
          = map row_and_type (made st) @ take ?k (typed_rows idx (r # rows))
       \<and> (fst (import_rows rsp a idx (r # rows) st) = Inr ()
            \<longrightarrow> length (typed_rows idx (r # rows)) \<le> ?k)"
      using Inr p m n t by (subst typed_rows_single) auto
    then show ?thesis by blast
  qed
qed

text \<open>A Sub-task row with no Task row before it ends the run.\<close>

lemma import_row_other:
  assumes "r ''Issue Type'' \<noteq> Some ''Task''" and "current_parent st = None"
    and "fst (import_row rsp a idx r st) = Inr u"
  shows "current_parent (snd (import_row rsp a idx r st)) = None"
  using assms
  by (auto simp: import_row_def subtask_row_def truthy_def split: option.splits if_splits)

lemma orphan_subtask_aborts:
  assumes "\<forall>x \<in> set pre. x ''Issue Type'' \<noteq> Some ''Task''" and "r ''Issue Type'' = Some ''Sub-task''"
  shows "current_parent st = None
         \<Longrightarrow> \<exists>e. fst (import_rows rsp a idx (pre @ r # post) st) = Inl e"
  using assms(1)
proof (induction pre arbitrary: idx st)
  case Nil
  have "\<exists>e. fst (import_row rsp a idx r st) = Inl e"
    using Nil.prems(1) assms(2)
    by (auto simp: import_row_def subtask_row_def truthy_def split: option.splits)
  then obtain e where "fst (import_row rsp a idx r st) = Inl e" by blast
  then show ?case by (cases "import_row rsp a idx r st") simp
next
  case (Cons x pre)
  obtain res st' where p: "import_row rsp a idx x st = (res, st')"
    by (cases "import_row rsp a idx x st")
  show ?case
  proof (cases res)
    case (Inl e)
    with p show ?thesis by simp
  next
    case (Inr u)
    have "x ''Issue Type'' \<noteq> Some ''Task''" using Cons.prems(2) by simp
    with Cons.prems(1) p Inr have "current_parent st' = None"
      using import_row_other[of x st rsp a idx u] by simp
    moreover have "\<forall>y \<in> set pre. y ''Issue Type'' \<noteq> Some ''Task''" using Cons.prems(2) by simp
    ultimately obtain e where "fst (import_rows rsp a (Suc idx) (pre @ r # post) st') = Inl e"
      using Cons.IH by blast
    with p Inr show ?thesis by simp
  qed
qed

lemma link_pending_made: "made (snd (link_pending rsp a links st)) = made st"
proof (induction links arbitrary: st)
  case Nil
  then show ?case by simp
next
  case (Cons l links)
  obtain dep_key tgt_key where l: "l = (dep_key, tgt_key)" by (cases l)
  obtain res st' where p: "link_issue rsp dep_key tgt_key (imp_dry_run a) st = (res, st')"
    by (cases "link_issue rsp dep_key tgt_key (imp_dry_run a) st")
  then have "made st' = made st"
    using link_issue_frame[of rsp dep_key tgt_key "imp_dry_run a" st] by simp
  with p l Cons.IH[of st'] show ?case by (cases res) simp_all
qed

lemma importer_main_made:
  "made (snd (importer_main rsp a rows s)) = made (snd (import_rows rsp a 1 rows (new_importer s)))"
  by (cases "import_rows rsp a 1 rows (new_importer s)")
     (auto simp: importer_main_def link_pending_made split: sum.splits)

lemma importer_main_ok:
  "fst (importer_main rsp a rows s) = Inr u \<Longrightarrow> fst (import_rows rsp a 1 rows (new_importer s)) = Inr ()"
  by (cases "import_rows rsp a 1 rows (new_importer s)")
     (auto simp: importer_main_def split: sum.splits)

lemma importer_main_err:
  "fst (import_rows rsp a 1 rows (new_importer s)) = Inl e \<Longrightarrow> fst (importer_main rsp a rows s) = Inl e"
  by (cases "import_rows rsp a 1 rows (new_importer s)")
     (auto simp: importer_main_def split: sum.splits)

section \<open>The issues created, against the exchanges\<close>

lemma issues_created_append: "issues_created (w @ v) = issues_created w @ issues_created v"
  by (simp add: issues_created_def map_filter_def)

lemma issues_created_single:
  "issues_created [x] = (case created_by x of None \<Rightarrow> [] | Some y \<Rightarrow> [y])"
  by (simp add: issues_created_def map_filter_def split: option.splits)

lemma created_by_raised: "created_by (c, Raised) = None"
  by (simp add: created_by_def split: call.splits)

lemma created_by_text: "created_by (c, Reply code JText) = None"
  by (simp add: created_by_def split: call.splits)

lemma created_by_link: "created_by (CreateLink x y, r) = None"
  by (simp add: created_by_def)

lemma exchange_wire:
  "wire (snd (exchange rsp c st)) = wire st @ [(c, fst (exchange rsp c st))]"
  by (simp add: exchange_def split: prod.splits)

lemma post_attempts_created:
  "issues_created (wire (snd (post_attempts rsp c n st)))
     = issues_created (wire st)
       @ (case fst (post_attempts rsp c n st) of
            Inl e \<Rightarrow> []
          | Inr (code, b) \<Rightarrow> issues_created [(c, Reply code b)])"
proof (induction n arbitrary: st)
  case 0
  obtain r st' where e: "exchange rsp c st = (r, st')" by (cases "exchange rsp c st")
  then have w: "wire st' = wire st @ [(c, r)]"
    using exchange_wire[of rsp c st] by simp
  show ?case
  proof (cases r)
    case Raised
    with e w show ?thesis
      by (simp add: issues_created_append issues_created_single created_by_raised)
  next
    case (Reply code b)
    with e w show ?thesis
      by (cases "b = JText")
         (simp_all add: issues_created_append issues_created_single created_by_text)
  qed
next
  case (Suc n)
  obtain r st' where e: "exchange rsp c st = (r, st')" by (cases "exchange rsp c st")
  then have w: "wire st' = wire st @ [(c, r)]"
    using exchange_wire[of rsp c st] by simp
  show ?case
  proof (cases r)
    case Raised
    with e have "post_attempts rsp c (Suc n) st = post_attempts rsp c n st'" by simp
    with Suc.IH[of st'] w Raised show ?thesis
      by (simp add: issues_created_append issues_created_single created_by_raised)
  next
    case (Reply code b)
    show ?thesis
    proof (cases "b = JText")
      case True
      with e Reply have "post_attempts rsp c (Suc n) st = post_attempts rsp c n st'" by simp
      with Suc.IH[of st'] w Reply True show ?thesis
        by (simp add: issues_created_append issues_created_single created_by_text)
    next
      case False
      with e Reply have "post_attempts rsp c (Suc n) st = (Inr (code, b), st')" by simp
      with w Reply show ?thesis by (simp add: issues_created_append)
    qed
  qed
qed

lemma create_issue_created:
  "issues_created (wire (snd (create_issue rsp fs False st)))
     = issues_created (wire st)
       @ (case fst (create_issue rsp fs False st) of
            Inl e \<Rightarrow> []
          | Inr key \<Rightarrow> (case truthy key of None \<Rightarrow> [] | Some k \<Rightarrow> [(fs, k)]))"
proof -
  let ?p = "post_attempts rsp (CreateIssue fs) MAX_RETRIES st"
  obtain res st' where p: "?p = (res, st')" by (cases ?p)
  note pc = post_attempts_created[of rsp "CreateIssue fs" MAX_RETRIES st]
  show ?thesis
  proof (cases res)
    case (Inl e)
    with p pc show ?thesis by (simp add: create_issue_def jira_post_def)
  next
    case (Inr cb)
    obtain code b where cb: "cb = (code, b)" by (cases cb)
    from p pc Inr cb have w: "issues_created (wire st')
        = issues_created (wire st) @ issues_created [(CreateIssue fs, Reply code b)]"
      by simp
    have "issues_created [(CreateIssue fs, Reply code b)]
            = (case truthy (if code = 200 \<or> code = 201
                            then (case b of JKey k \<Rightarrow> Some k | _ \<Rightarrow> None) else None) of
                 None \<Rightarrow> [] | Some k \<Rightarrow> [(fs, k)])"
      by (cases b) (simp_all add: issues_created_single created_by_def truthy_def)
    with w p Inr cb show ?thesis by (simp add: create_issue_def jira_post_def)
  qed
qed

lemma link_issue_created:
  "issues_created (wire (snd (link_issue rsp x y dry st))) = issues_created (wire st)"
proof (cases dry)
  case True
  then show ?thesis by (simp add: link_issue_def jira_post_def)
next
  case False
  let ?p = "post_attempts rsp (CreateLink x y) MAX_RETRIES st"
  obtain res st' where p: "?p = (res, st')" by (cases ?p)
  note pc = post_attempts_created[of rsp "CreateLink x y" MAX_RETRIES st]
  have "issues_created (wire st') = issues_created (wire st)"
    using p pc by (cases res) (auto simp: issues_created_single created_by_link)
  with p False show ?thesis
    by (cases res) (auto simp: link_issue_def jira_post_def)
qed

lemma note_dependency_wire: "wire (note_dependency r key st) = wire st"
  by (simp add: note_dependency_def Let_def split: option.splits)

lemma task_row_tie:
  assumes "\<not> imp_dry_run a"
    and "map payload_and_key (made st) = issues_created (wire st)"
  shows "map payload_and_key (made (snd (task_row rsp a idx r summary st)))
           = issues_created (wire (snd (task_row rsp a idx r summary st)))"
proof -
  let ?fs = "task_fields a r summary"
  obtain res st' where c: "create_issue rsp ?fs False st = (res, st')"
    by (cases "create_issue rsp ?fs False st")
  have fr: "made st' = made st"
    using create_issue_frame[of rsp ?fs False st] c by simp
  have cr: "issues_created (wire st')
              = issues_created (wire st)
                @ (case res of Inl e \<Rightarrow> []
                   | Inr key \<Rightarrow> (case truthy key of None \<Rightarrow> [] | Some k \<Rightarrow> [(?fs, k)]))"
    using create_issue_created[of rsp ?fs st] c by simp
  show ?thesis
  proof (cases res)
    case (Inl e)
    with c fr cr assms show ?thesis by (simp add: task_row_def)
  next
    case (Inr key)
    with c fr cr assms show ?thesis
      by (cases "truthy key") (simp_all add: task_row_def payload_and_key_def)
  qed
qed

lemma subtask_row_tie:
  assumes "\<not> imp_dry_run a"
    and "map payload_and_key (made st) = issues_created (wire st)"
  shows "map payload_and_key (made (snd (subtask_row rsp a idx r summary st)))
           = issues_created (wire (snd (subtask_row rsp a idx r summary st)))"
proof (cases "case truthy (current_parent st) of None \<Rightarrow> None
            | Some p \<Rightarrow> (case created st p of None \<Rightarrow> None | Some pk \<Rightarrow> Some (p, pk))")
  case None
  with assms show ?thesis by (simp add: subtask_row_def)
next
  case (Some ppk)
  obtain p pk where ppk: "ppk = (p, pk)" by (cases ppk)
  let ?fs = "subtask_fields a r summary pk"
  obtain res st' where c: "create_issue rsp ?fs False st = (res, st')"
    by (cases "create_issue rsp ?fs False st")
  have fr: "made st' = made st"
    using create_issue_frame[of rsp ?fs False st] c by simp
  have cr: "issues_created (wire st')
              = issues_created (wire st)
                @ (case res of Inl e \<Rightarrow> []
                   | Inr key \<Rightarrow> (case truthy key of None \<Rightarrow> [] | Some k \<Rightarrow> [(?fs, k)]))"
    using create_issue_created[of rsp ?fs st] c by simp
  show ?thesis
  proof (cases res)
    case (Inl e)
    with c fr cr assms Some ppk show ?thesis by (simp add: subtask_row_def)
  next
    case (Inr key)
    with c fr cr assms Some ppk show ?thesis
      by (cases "truthy key")
         (simp_all add: subtask_row_def payload_and_key_def note_dependency_wire
            note_dependency_frame(1))
  qed
qed

lemma import_row_tie:
  assumes "\<not> imp_dry_run a"
    and "map payload_and_key (made st) = issues_created (wire st)"
  shows "map payload_and_key (made (snd (import_row rsp a idx r st)))
           = issues_created (wire (snd (import_row rsp a idx r st)))"
  using assms task_row_tie[OF assms] subtask_row_tie[OF assms]
  by (simp add: import_row_def split: option.splits)

lemma import_rows_tie:
  assumes "\<not> imp_dry_run a"
    and "map payload_and_key (made st) = issues_created (wire st)"
  shows "map payload_and_key (made (snd (import_rows rsp a idx rows st)))
           = issues_created (wire (snd (import_rows rsp a idx rows st)))"
  using assms(2)
proof (induction rows arbitrary: idx st)
  case Nil
  then show ?case by simp
next
  case (Cons r rows)
  obtain res st' where p: "import_row rsp a idx r st = (res, st')"
    by (cases "import_row rsp a idx r st")
  have t: "map payload_and_key (made st') = issues_created (wire st')"
    using import_row_tie[OF assms(1) Cons.prems, of rsp idx r] p by simp
  show ?case
  proof (cases res)
    case (Inl e)
    with p t show ?thesis by simp
  next
    case (Inr u)
    with p Cons.IH[OF t, of "Suc idx"] show ?thesis by simp
  qed
qed

lemma link_pending_created:
  "issues_created (wire (snd (link_pending rsp a links st))) = issues_created (wire st)"
proof (induction links arbitrary: st)
  case Nil
  then show ?case by simp
next
  case (Cons l links)
  obtain dep_key tgt_key where l: "l = (dep_key, tgt_key)" by (cases l)
  obtain res st' where p: "link_issue rsp dep_key tgt_key (imp_dry_run a) st = (res, st')"
    by (cases "link_issue rsp dep_key tgt_key (imp_dry_run a) st")
  then have "issues_created (wire st') = issues_created (wire st)"
    using link_issue_created[of rsp dep_key tgt_key "imp_dry_run a" st] by simp
  with p l Cons.IH[of st'] show ?case by (cases res) simp_all
qed

lemma importer_main_tie:
  assumes "\<not> imp_dry_run a"
  shows "map payload_and_key (made (snd (importer_main rsp a rows s)))
           = issues_created (wire (snd (importer_main rsp a rows s)))"
proof -
  let ?st = "new_importer s"
  have t0: "map payload_and_key (made ?st) = issues_created (wire ?st)"
    by (simp add: new_importer_def issues_created_def map_filter_def)
  note t = import_rows_tie[OF assms t0, of rsp 1 rows]
  obtain res st' where p: "import_rows rsp a 1 rows ?st = (res, st')"
    by (cases "import_rows rsp a 1 rows ?st")
  show ?thesis
  proof (cases res)
    case (Inl e)
    with p t show ?thesis by (simp add: importer_main_def)
  next
    case (Inr u)
    with p t show ?thesis
      by (simp add: importer_main_def link_pending_created link_pending_made)
  qed
qed

text \<open>The record of created issues is a function of the rows and of the exchanges.\<close>

lemma made_zip:
  "es = map (\<lambda>((idx, ty), (fs, key)). (idx, ty, fs, key))
          (zip (map row_and_type es) (map payload_and_key es))"
  by (induction es) (auto simp: row_and_type_def payload_and_key_def)

lemma zip_take_same:
  assumes "length ys = length (take n xs)"
  shows "zip (take n xs) ys = zip xs ys"
proof -
  have "zip xs ys = zip (take n xs @ drop n xs) ys" by simp
  also have "\<dots> = zip (take n xs) (take (length (take n xs)) ys)
                    @ zip (drop n xs) (drop (length (take n xs)) ys)"
    by (rule zip_append1)
  also have "\<dots> = zip (take n xs) ys" using assms by simp
  finally show ?thesis by simp
qed

lemma made_log_of:
  assumes "map row_and_type es = take n (typed_rows 1 rows)"
    and "map payload_and_key es = issues_created w"
  shows "es = log_of rows w"
proof -
  have "length (issues_created w) = length (take n (typed_rows 1 rows))"
    using assms by (metis length_map)
  then have "zip (take n (typed_rows 1 rows)) (issues_created w)
               = zip (typed_rows 1 rows) (issues_created w)"
    by (rule zip_take_same)
  with made_zip[of es] assms show ?thesis by (simp add: log_of_def)
qed

text \<open>A dry run has no exchange with the tracker.\<close>

lemma create_issue_dry: "snd (create_issue rsp fs True st) = st"
  by (simp add: create_issue_def jira_post_def)

lemma link_issue_dry: "snd (link_issue rsp x y True st) = st"
  by (simp add: link_issue_def jira_post_def)

lemma import_row_dry:
  assumes "imp_dry_run a"
  shows "wire (snd (import_row rsp a idx r st)) = wire st"
proof -
  have c: "create_issue rsp fs (imp_dry_run a) st = (fst (create_issue rsp fs True st), st)" for fs
    using assms create_issue_dry[of rsp fs st] by (cases "create_issue rsp fs True st") simp
  show ?thesis
    by (simp add: import_row_def task_row_def subtask_row_def c note_dependency_wire Let_def
          split: option.splits sum.splits prod.splits)
qed

lemma import_rows_dry:
  assumes "imp_dry_run a"
  shows "wire (snd (import_rows rsp a idx rows st)) = wire st"
proof (induction rows arbitrary: idx st)
  case Nil
  then show ?case by simp
next
  case (Cons r rows)
  obtain res st' where p: "import_row rsp a idx r st = (res, st')"
    by (cases "import_row rsp a idx r st")
  then have "wire st' = wire st"
    using import_row_dry[OF assms, of rsp idx r st] by simp
  with p Cons.IH[of "Suc idx" st'] show ?case by (cases res) simp_all
qed

lemma link_pending_dry:
  assumes "imp_dry_run a"
  shows "wire (snd (link_pending rsp a links st)) = wire st"
proof (induction links arbitrary: st)
  case Nil
  then show ?case by simp
next
  case (Cons l links)
  obtain dep_key tgt_key where l: "l = (dep_key, tgt_key)" by (cases l)
  obtain res st' where p: "link_issue rsp dep_key tgt_key (imp_dry_run a) st = (res, st')"
    by (cases "link_issue rsp dep_key tgt_key (imp_dry_run a) st")
  then have "st' = st"
    using assms link_issue_dry[of rsp dep_key tgt_key st] by simp
  with p l Cons.IH[of st] show ?case by (cases res) simp_all
qed

lemma importer_main_dry:
  assumes "imp_dry_run a"
  shows "wire (snd (importer_main rsp a rows s)) = []"
proof -
  let ?st = "new_importer s"
  obtain res st' where p: "import_rows rsp a 1 rows ?st = (res, st')"
    by (cases "import_rows rsp a 1 rows ?st")
  then have "wire st' = []"
    using import_rows_dry[OF assms, of rsp 1 rows ?st] by (simp add: new_importer_def)
  with p show ?thesis
    by (cases res) (simp_all add: importer_main_def link_pending_dry[OF assms])
qed


text \<open>
  C10, amended. In an import whose start-date field is another field than
  \<^verbatim>\<open>parent\<close>, the issues created are exactly those of the rows of type Task and
  Sub-task, in CSV order, up to the row where the run stops (all of them when it ends
  normally), and every issue created from a Sub-task row has as its parent the key of
  the issue created from the nearest preceding Task row. The issues created are the
  issue creations the tracker answered with a key: in a live run the record kept of them
  is the list of those exchanges paired with the rows, and a dry run has no exchange at
  all, the property then being one of the payloads it builds. A Sub-task row that no
  Task row precedes ends the whole run with an error.
\<close>

theorem subtask_parent:
  assumes "JIRA_START_DATE_FIELD a \<noteq> Some ''parent''"
  shows "parents_ok None (made (snd (importer_main rsp a rows s)))
       \<and> (\<exists>n. map row_and_type (made (snd (importer_main rsp a rows s))) = take n (typed_rows 1 rows))
       \<and> (fst (importer_main rsp a rows s) = Inr ()
            \<longrightarrow> map row_and_type (made (snd (importer_main rsp a rows s))) = typed_rows 1 rows)
       \<and> (\<not> imp_dry_run a
            \<longrightarrow> made (snd (importer_main rsp a rows s))
                  = log_of rows (wire (snd (importer_main rsp a rows s)))
                \<and> parents_ok None (log_of rows (wire (snd (importer_main rsp a rows s)))))
       \<and> (imp_dry_run a \<longrightarrow> wire (snd (importer_main rsp a rows s)) = [])
       \<and> (\<forall>pre r post. rows = pre @ r # post \<and> (\<forall>x \<in> set pre. x ''Issue Type'' \<noteq> Some ''Task'')
              \<and> r ''Issue Type'' = Some ''Sub-task''
            \<longrightarrow> (\<exists>e. fst (importer_main rsp a rows s) = Inl e))"
proof -
  let ?st = "new_importer s"
  let ?fin = "snd (importer_main rsp a rows s)"
  have inv0: "parent_inv ?st" by (simp add: parent_inv_def new_importer_def truthy_def)
  have a: "parents_ok None (made ?fin)"
    using import_rows_inv[OF assms inv0, of rsp 1 rows]
    by (simp add: importer_main_made parent_inv_def)
  from import_rows_made[of rsp a 1 rows ?st] obtain n where
    n: "map row_and_type (made (snd (import_rows rsp a 1 rows ?st))) = take n (typed_rows 1 rows)"
       "fst (import_rows rsp a 1 rows ?st) = Inr () \<longrightarrow> length (typed_rows 1 rows) \<le> n"
    by (auto simp: new_importer_def)
  have bn: "map row_and_type (made ?fin) = take n (typed_rows 1 rows)"
    using n(1) by (simp add: importer_main_made)
  then have b: "\<exists>n. map row_and_type (made ?fin) = take n (typed_rows 1 rows)"
    by blast
  have c: "fst (importer_main rsp a rows s) = Inr ()
            \<longrightarrow> map row_and_type (made ?fin) = typed_rows 1 rows"
    using n importer_main_ok[of rsp a rows s "()"] by (auto simp: importer_main_made)
  have l: "made ?fin = log_of rows (wire ?fin) \<and> parents_ok None (log_of rows (wire ?fin))"
    if live: "\<not> imp_dry_run a"
  proof -
    have "made ?fin = log_of rows (wire ?fin)"
      using bn importer_main_tie[OF live, of rsp rows s] by (rule made_log_of)
    with a show ?thesis by simp
  qed
  have w: "imp_dry_run a \<longrightarrow> wire ?fin = []"
    using importer_main_dry[of a rsp rows s] by blast
  have d: "\<exists>e. fst (importer_main rsp a rows s) = Inl e"
    if "rows = pre @ r # post \<and> (\<forall>x \<in> set pre. x ''Issue Type'' \<noteq> Some ''Task'')
        \<and> r ''Issue Type'' = Some ''Sub-task''" for pre r post
  proof -
    have "current_parent ?st = None" by (simp add: new_importer_def)
    from orphan_subtask_aborts[OF _ _ this, of pre r rsp a 1 post] that
    obtain e where "fst (import_rows rsp a 1 rows ?st) = Inl e" by blast
    from importer_main_err[OF this] show ?thesis by blast
  qed
  from a b c l w d show ?thesis by blast
qed

theorem subtask_parent_witness:
  "JIRA_START_DATE_FIELD import_dated \<noteq> Some ''parent''
   \<and> \<not> imp_dry_run import_dated
   \<and> fst (importer_main numbering_tracker import_dated [task_a, task_b, sub_dated] 0) = Inr ()
   \<and> map (\<lambda>(fs, key). (get_field fs ''parent'', key))
         (issues_created
            (wire (snd (importer_main numbering_tracker import_dated [task_a, task_b, sub_dated] 0))))
       = [(None, ''T-0''), (None, ''T-1''), (Some (FKey ''T-1''), ''T-2'')]
   \<and> made (snd (importer_main numbering_tracker import_dated [task_a, task_b, sub_dated] 0))
       = log_of [task_a, task_b, sub_dated]
           (wire (snd (importer_main numbering_tracker import_dated [task_a, task_b, sub_dated] 0)))
   \<and> parents_ok None
         (log_of [task_a, task_b, sub_dated]
            (wire (snd (importer_main numbering_tracker import_dated [task_a, task_b, sub_dated] 0))))
   \<and> map row_and_type
         (made (snd (importer_main numbering_tracker import_dated [task_a, task_b, sub_dated] 0)))
       = [(1, ''Task''), (2, ''Task''), (3, ''Sub-task'')]
   \<and> (\<exists>e. fst (importer_main numbering_tracker import_dated [sub_dated, task_a] 0) = Inl e)
   \<and> JIRA_START_DATE_FIELD import_dry \<noteq> Some ''parent''
   \<and> imp_dry_run import_dry
   \<and> wire (snd (importer_main numbering_tracker import_dry [task_a, sub_dated] 0)) = []
   \<and> parents_ok None (made (snd (importer_main numbering_tracker import_dry [task_a, sub_dated] 0)))"
proof -
  let ?rows = "[task_a, task_b, sub_dated]"
  let ?fin = "snd (importer_main numbering_tracker import_dated ?rows 0)"
  have h: "JIRA_START_DATE_FIELD import_dated \<noteq> Some ''parent''"
    by (simp add: import_dated_def)
  have live: "\<not> imp_dry_run import_dated" by (simp add: import_dated_def)
  have hd: "JIRA_START_DATE_FIELD import_dry \<noteq> Some ''parent''"
    by (simp add: import_dry_def)
  have dry: "imp_dry_run import_dry" by (simp add: import_dry_def)
  have ok: "fst (importer_main numbering_tracker import_dated ?rows 0) = Inr ()"
    by code_simp
  have log: "map (\<lambda>(fs, key). (get_field fs ''parent'', key)) (issues_created (wire ?fin))
       = [(None, ''T-0''), (None, ''T-1''), (Some (FKey ''T-1''), ''T-2'')]"
    by code_simp
  have tr: "typed_rows 1 ?rows = [(1, ''Task''), (2, ''Task''), (3, ''Sub-task'')]"
    by code_simp
  have ty: "sub_dated ''Issue Type'' = Some ''Sub-task''" by (simp add: sub_dated_def)
  note t1 = subtask_parent[OF h, of numbering_tracker ?rows 0]
  note t2 = subtask_parent[OF h, of numbering_tracker "[sub_dated, task_a]" 0]
  note t3 = subtask_parent[OF hd, of numbering_tracker "[task_a, sub_dated]" 0]
  from t1 live have m: "made ?fin = log_of ?rows (wire ?fin)"
    and p: "parents_ok None (log_of ?rows (wire ?fin))"
    by blast+
  from t1 ok have "map row_and_type (made ?fin) = typed_rows 1 ?rows" by blast
  with tr have rt: "map row_and_type (made ?fin) = [(1, ''Task''), (2, ''Task''), (3, ''Sub-task'')]"
    by simp
  from t2 have "[sub_dated, task_a] = [] @ sub_dated # [task_a]
       \<and> (\<forall>x \<in> set []. x ''Issue Type'' \<noteq> Some ''Task'') \<and> sub_dated ''Issue Type'' = Some ''Sub-task''
     \<longrightarrow> (\<exists>e. fst (importer_main numbering_tracker import_dated [sub_dated, task_a] 0) = Inl e)"
    by blast
  with ty have e: "\<exists>e. fst (importer_main numbering_tracker import_dated [sub_dated, task_a] 0) = Inl e"
    by simp
  from t3 dry have dw: "wire (snd (importer_main numbering_tracker import_dry [task_a, sub_dated] 0)) = []"
    and dp: "parents_ok None (made (snd (importer_main numbering_tracker import_dry [task_a, sub_dated] 0)))"
    by blast+
  from h live ok log m p rt e hd dry dw dp show ?thesis by blast
qed

text \<open>
  C10 as stated fails: with \<^verbatim>\<open>parent\<close> as the start-date field, the start date of a
  Sub-task row replaces the parent in the payload of its issue, which is created with a
  date where the key of the task should be.
\<close>

theorem parent_overwritten_counterexample:
  "fst (importer_main numbering_tracker import_parent_dated [task_a, sub_dated] 0) = Inr ()
   \<and> map (\<lambda>(fs, key). (get_field fs ''issuetype'', get_field fs ''parent'', key))
         (issues_created
            (wire (snd (importer_main numbering_tracker import_parent_dated [task_a, sub_dated] 0))))
       = [(Some (FName ''Task''), None, ''T-0''),
          (Some (FName ''Sub-task''), Some (FStr ''2025-08-09''), ''T-1'')]"
  by code_simp


section \<open>Which failures end a run\<close>

lemma request_inl:
  assumes "fst (request rsp c j) = Inl e"
  shows "error_call e = Some c"
  using assms by (auto simp: request_def Let_def split: prod.splits reply.splits if_splits)

lemma harmless_call:
  assumes "error_call e = Some c" and "\<not> is_primary c" and "\<not> is_link c"
  shows "\<not> from_update_or_link e"
  using assms by (simp add: from_update_or_link_def)

lemma and_then_inl:
  assumes "fst (and_then m f j) = Inl e"
  shows "fst (m j) = Inl e \<or> (\<exists>x j'. m j = (Inr x, j') \<and> fst (f x j') = Inl e)"
  using assms by (cases "m j") (auto simp: and_then_def split: sum.splits)

lemma search_inl:
  assumes "fst (search_issue_by_summary rsp pk q j) = Inl e"
  shows "\<not> from_update_or_link e"
proof -
  let ?c = "search_call pk q"
  have nb: "\<not> is_primary ?c" "\<not> is_link ?c"
    by (simp_all add: search_call_def is_primary_def is_link_def)
  obtain res j' where r: "request rsp ?c j = (res, j')" by (cases "request rsp ?c j")
  show ?thesis
  proof (cases res)
    case (Inl e')
    with r assms have "e = e'" by (simp add: search_issue_by_summary_def)
    moreover have "error_call e' = Some ?c" using request_inl[of rsp ?c j e'] r Inl by simp
    ultimately show ?thesis using nb harmless_call by blast
  next
    case (Inr b)
    with r assms have "e = BadBody ?c"
      by (cases b) (simp_all add: search_issue_by_summary_def)
    then show ?thesis using nb by (simp add: from_update_or_link_def)
  qed
qed

lemma resolve_key_inl:
  assumes "fst (resolve_key rsp a r j) = Inl e"
  shows "\<not> from_update_or_link e"
proof -
  let ?s = "search_issue_by_summary rsp (project_key a) (strip (or_empty (r ''Summary''))) j"
  from assms have "fst ?s = Inl e"
    by (cases ?s) (auto simp: resolve_key_def Let_def split: if_splits sum.splits option.splits)
  then show ?thesis by (rule search_inl)
qed

lemma resolve_user_inl:
  assumes "fst (resolve_user_account_id rsp email j) = Inl e"
  shows "\<not> from_update_or_link e"
proof -
  let ?c = "UserSearch email"
  have nb: "\<not> is_primary ?c" "\<not> is_link ?c" by (simp_all add: is_primary_def is_link_def)
  obtain res j' where r: "request rsp ?c j = (res, j')" by (cases "request rsp ?c j")
  from assms have miss: "user_cache j email = None"
    by (cases "user_cache j email") (simp_all add: resolve_user_account_id_def)
  show ?thesis
  proof (cases res)
    case (Inl e')
    with r assms miss have "e = e'" by (simp add: resolve_user_account_id_def)
    moreover have "error_call e' = Some ?c" using request_inl[of rsp ?c j e'] r Inl by simp
    ultimately show ?thesis using nb harmless_call by blast
  next
    case (Inr b)
    with r assms miss have "e = BadBody ?c"
      by (cases b) (simp_all add: resolve_user_account_id_def Let_def)
    then show ?thesis by (simp add: from_update_or_link_def is_primary_def is_link_def)
  qed
qed

lemma version_inl:
  assumes "fst (get_or_create_version rsp pid name j) = Inl e"
  shows "\<exists>c. error_call e = Some c \<and> (c = ListVersions pid \<or> c = CreateVersion name pid)"
proof -
  let ?vc = "case version_cache j pid of None \<Rightarrow> Map.empty | Some m \<Rightarrow> m"
  let ?j0 = "j\<lparr>version_cache := (version_cache j)(pid \<mapsto> ?vc)\<rparr>"
  from assms have miss: "?vc name = None"
    by (cases "?vc name") (simp_all add: get_or_create_version_def Let_def)
  obtain res j1 where r: "request rsp (ListVersions pid) ?j0 = (res, j1)"
    by (cases "request rsp (ListVersions pid) ?j0")
  show ?thesis
  proof (cases res)
    case (Inl e')
    with r assms miss have "e = e'" by (simp add: get_or_create_version_def Let_def)
    moreover have "error_call e' = Some (ListVersions pid)"
      using request_inl[of rsp "ListVersions pid" ?j0 e'] r Inl by simp
    ultimately show ?thesis by simp
  next
    case (Inr b)
    show ?thesis
    proof (cases "entities_of b")
      case None
      with Inr r assms miss have "e = BadBody (ListVersions pid)"
        by (simp add: get_or_create_version_def Let_def)
      then show ?thesis by simp
    next
      case (Some versions)
      let ?f = "find (\<lambda>v. lower (strip (ent_name v)) = lower (strip name)) versions"
      from Some Inr r assms miss have nf: "?f = None"
        by (cases ?f) (simp_all add: get_or_create_version_def Let_def)
      obtain res2 j2 where r2: "request rsp (CreateVersion name pid) j1 = (res2, j2)"
        by (cases "request rsp (CreateVersion name pid) j1")
      show ?thesis
      proof (cases res2)
        case (Inl e')
        with r2 nf Some Inr r assms miss have "e = e'"
          by (simp add: get_or_create_version_def Let_def)
        moreover have "error_call e' = Some (CreateVersion name pid)"
          using request_inl[of rsp "CreateVersion name pid" j1 e'] r2 Inl by simp
        ultimately show ?thesis by simp
      next
        case (Inr b2)
        with r2 nf Some \<open>res = Inr b\<close> r assms miss have "e = BadBody (CreateVersion name pid)"
          by (cases b2) (simp_all add: get_or_create_version_def Let_def)
        then show ?thesis by simp
      qed
    qed
  qed
qed

lemma version_harmless:
  assumes "fst (get_or_create_version rsp pid name j) = Inl e"
  shows "\<not> from_update_or_link e"
  using version_inl[OF assms]
  by (auto simp: from_update_or_link_def is_primary_def is_link_def)

lemma list_components_inl:
  assumes "fst (list_project_components rsp pid j) = Inl e"
  shows "\<not> from_update_or_link e"
proof -
  let ?c = "ListComponents pid"
  obtain res j' where r: "request rsp ?c j = (res, j')" by (cases "request rsp ?c j")
  from assms have miss: "component_cache j pid = None"
    by (cases "component_cache j pid") (simp_all add: list_project_components_def)
  show ?thesis
  proof (cases res)
    case (Inl e')
    with r assms miss have "e = e'" by (simp add: list_project_components_def)
    moreover have "error_call e' = Some ?c" using request_inl[of rsp ?c j e'] r Inl by simp
    ultimately show ?thesis by (simp add: from_update_or_link_def is_primary_def is_link_def)
  next
    case (Inr b)
    with r assms miss have "e = BadBody ?c"
      by (cases "entities_of b") (simp_all add: list_project_components_def)
    then show ?thesis by (simp add: from_update_or_link_def is_primary_def is_link_def)
  qed
qed

lemma add_components_inl:
  "fst (add_components rsp pid names ids j) = Inl e \<Longrightarrow> \<not> from_update_or_link e"
proof (induction names arbitrary: ids j)
  case Nil
  then show ?case by simp
next
  case (Cons name names)
  show ?case
  proof (cases "comp_map_of j pid (lower name)")
    case (Some c)
    with Cons.prems have "fst (add_components rsp pid names (ids @ [ent_id c]) j) = Inl e" by simp
    then show ?thesis by (rule Cons.IH)
  next
    case None
    let ?c = "CreateComponent name pid"
    obtain res j' where r: "request rsp ?c j = (res, j')" by (cases "request rsp ?c j")
    show ?thesis
    proof (cases res)
      case (Inl e')
      with r None Cons.prems have "e = e'" by simp
      moreover have "error_call e' = Some ?c" using request_inl[of rsp ?c j e'] r Inl by simp
      ultimately show ?thesis by (simp add: from_update_or_link_def is_primary_def is_link_def)
    next
      case (Inr b)
      show ?thesis
      proof (cases "\<exists>created. b = JEntity created")
        case True
        then obtain created where b: "b = JEntity created" by blast
        with Inr r None Cons.prems
        have "fst (add_components rsp pid names (ids @ [ent_id created])
                (j'\<lparr>component_cache :=
                      (component_cache j')
                        (pid \<mapsto> (comp_map_of j' pid)(lower name \<mapsto> created))\<rparr>)) = Inl e"
          by simp
        then show ?thesis by (rule Cons.IH)
      next
        case False
        with Inr r None Cons.prems have "e = BadBody ?c" by (cases b) simp_all
        then show ?thesis by (simp add: from_update_or_link_def is_primary_def is_link_def)
      qed
    qed
  qed
qed

lemma add_versions_inl:
  "fst (add_versions rsp pid vnames ids j) = Inl e \<Longrightarrow> \<not> from_update_or_link e"
proof (induction vnames arbitrary: ids j)
  case Nil
  then show ?case by simp
next
  case (Cons vname vnames)
  obtain res j' where r: "get_or_create_version rsp pid vname j = (res, j')"
    by (cases "get_or_create_version rsp pid vname j")
  show ?case
  proof (cases res)
    case (Inl e')
    with r Cons.prems have "e = e'" by simp
    with r Inl show ?thesis using version_harmless[of rsp pid vname j e'] by simp
  next
    case (Inr v)
    with r Cons.prems have "fst (add_versions rsp pid vnames (ids @ [ent_id v]) j') = Inl e"
      by simp
    then show ?thesis by (rule Cons.IH)
  qed
qed

lemma key_error_harmless: "\<not> from_update_or_link (KeyError k)"
  by (simp add: from_update_or_link_def)

lemma set_components_inl:
  assumes "fst (set_components rsp r project fs j) = Inl e"
  shows "\<not> from_update_or_link e"
proof (cases "cell r ''Components''")
  case None
  with assms show ?thesis by (simp add: set_components_def)
next
  case (Some comps)
  show ?thesis
  proof (cases "project_id_of project")
    case (Inl e')
    with Some assms have "e = e'" by (simp add: set_components_def)
    with Inl show ?thesis
      by (cases project) (auto simp: project_id_of_def key_error_harmless)
  next
    case (Inr pid)
    let ?m = "list_project_components rsp pid"
    let ?f = "\<lambda>comp_map::string \<rightharpoonup> entity. and_then (add_components rsp pid (tokens comps) [])
                (\<lambda>ids j'. (Inr (put_field ''components'' (FIds ids) fs), j'))"
    from Some Inr assms have "fst (and_then ?m ?f j) = Inl e" by (simp add: set_components_def)
    from and_then_inl[OF this] show ?thesis
    proof
      assume "fst (?m j) = Inl e"
      then show ?thesis by (rule list_components_inl)
    next
      assume "\<exists>x j'. ?m j = (Inr x, j') \<and> fst (?f x j') = Inl e"
      then obtain x j' where "fst (?f x j') = Inl e" by blast
      from and_then_inl[OF this] show ?thesis by (auto dest: add_components_inl)
    qed
  qed
qed

lemma set_versions_inl:
  assumes "fst (set_versions rsp r project fs j) = Inl e"
  shows "\<not> from_update_or_link e"
proof (cases "cell r ''FixVersions''")
  case None
  with assms show ?thesis by (simp add: set_versions_def)
next
  case (Some vers)
  show ?thesis
  proof (cases "project_id_of project")
    case (Inl e')
    with Some assms have "e = e'" by (simp add: set_versions_def)
    with Inl show ?thesis
      by (cases project) (auto simp: project_id_of_def key_error_harmless)
  next
    case (Inr pid)
    let ?m = "add_versions rsp pid (tokens vers) []"
    let ?f = "\<lambda>ids j'. (Inr (put_field ''fixVersions'' (FIds ids) fs) :: error + fields, j' :: 'a jira)"
    from Some Inr assms have "fst (and_then ?m ?f j) = Inl e" by (simp add: set_versions_def)
    from and_then_inl[OF this] show ?thesis by (auto dest: add_versions_inl)
  qed
qed

lemma set_assignee_inl:
  assumes "fst (set_assignee rsp r fs j) = Inl e"
  shows "\<not> from_update_or_link e"
proof (cases "cell r ''AssigneeEmail''")
  case None
  with assms show ?thesis by (simp add: set_assignee_def)
next
  case (Some ass_email)
  let ?m = "resolve_user_account_id rsp (strip ass_email)"
  let ?f = "\<lambda>acct j'. (Inr (case acct of
                       Some a \<Rightarrow> if a \<noteq> [] then put_field ''assignee'' (FAccount a) fs else fs
                     | None \<Rightarrow> fs) :: error + fields, j' :: 'a jira)"
  from Some assms have "fst (and_then ?m ?f j) = Inl e" by (simp add: set_assignee_def)
  from and_then_inl[OF this] show ?thesis by (auto dest: resolve_user_inl)
qed

lemma build_fields_inl:
  assumes "fst (build_fields rsp env r sf project j) = Inl e"
  shows "\<not> from_update_or_link e"
proof -
  let ?m1 = "set_components rsp r project (set_plain r (set_dates env r sf []))"
  let ?f3 = "\<lambda>f3 j'. (Inr (set_links env r f3) :: error + fields, j' :: 'a jira)"
  let ?f2 = "\<lambda>f2. and_then (set_assignee rsp r f2) ?f3"
  let ?f1 = "\<lambda>f1. and_then (set_versions rsp r project f1) ?f2"
  from assms have "fst (and_then ?m1 ?f1 j) = Inl e" by (simp add: build_fields_def)
  from and_then_inl[OF this] show ?thesis
  proof
    assume "fst (?m1 j) = Inl e"
    then show ?thesis by (rule set_components_inl)
  next
    assume "\<exists>x j'. ?m1 j = (Inr x, j') \<and> fst (?f1 x j') = Inl e"
    then obtain x j' where "fst (?f1 x j') = Inl e" by blast
    from and_then_inl[OF this] show ?thesis
    proof
      assume "fst (set_versions rsp r project x j') = Inl e"
      then show ?thesis by (rule set_versions_inl)
    next
      assume "\<exists>y j''. set_versions rsp r project x j' = (Inr y, j'') \<and> fst (?f2 y j'') = Inl e"
      then obtain y j'' where "fst (?f2 y j'') = Inl e" by blast
      from and_then_inl[OF this] show ?thesis by (auto dest: set_assignee_inl)
    qed
  qed
qed

lemma process_row_inl:
  assumes "fst (process_row rsp env a project r st) = Inl e"
  shows "\<not> from_update_or_link e"
proof -
  obtain res j1 where r1: "resolve_key rsp a r (conn st) = (res, j1)"
    by (cases "resolve_key rsp a r (conn st)")
  show ?thesis
  proof (cases res)
    case (Inl e')
    with r1 assms have "e = e'" by (simp add: process_row_def)
    with r1 Inl show ?thesis using resolve_key_inl[of rsp a r "conn st" e'] by simp
  next
    case (Inr k)
    show ?thesis
    proof (cases k)
      case None
      with Inr r1 assms show ?thesis by (simp add: process_row_def)
    next
      case (Some key)
      obtain res2 j2 where r2: "build_fields rsp env r (startdate_field a) project j1 = (res2, j2)"
        by (cases "build_fields rsp env r (startdate_field a) project j1")
      show ?thesis
      proof (cases res2)
        case (Inl e')
        with r2 Some Inr r1 assms have "e = e'" by (simp add: process_row_def)
        with r2 Inl show ?thesis
          using build_fields_inl[of rsp env r "startdate_field a" project j1 e'] by simp
      next
        case (Inr fs)
        with r2 Some \<open>res = Inr k\<close> r1 assms show ?thesis by (simp add: process_row_def)
      qed
    qed
  qed
qed

lemma rows_loop_inl:
  "fst (rows_loop rsp env a project rows st) = Inl e \<Longrightarrow> \<not> from_update_or_link e"
proof (induction rows arbitrary: st)
  case Nil
  then show ?case by simp
next
  case (Cons r rows)
  show ?case
  proof (cases "cap_reached a st")
    case True
    with Cons.prems show ?thesis by simp
  next
    case False
    obtain res st' where p: "process_row rsp env a project r st = (res, st')"
      by (cases "process_row rsp env a project r st")
    show ?thesis
    proof (cases res)
      case (Inl e')
      with p False Cons.prems have "e = e'" by simp
      with p Inl show ?thesis using process_row_inl[of rsp env a project r st e'] by simp
    next
      case (Inr u)
      with p False Cons.prems have "fst (rows_loop rsp env a project rows st') = Inl e"
        by simp
      then show ?thesis by (rule Cons.IH)
    qed
  qed
qed

lemma get_project_meta_inl:
  assumes "fst (get_project_meta rsp k j) = Inl e"
  shows "error_call e = Some (GetProject k)"
proof -
  obtain res j' where g: "request rsp (GetProject k) j = (res, j')"
    by (cases "request rsp (GetProject k) j")
  show ?thesis
  proof (cases res)
    case (Inl e')
    with g assms have "e = e'" by (simp add: get_project_meta_def)
    with request_inl[of rsp "GetProject k" j e'] g Inl show ?thesis by simp
  next
    case (Inr b)
    with g assms have "e = BadBody (GetProject k)"
      by (simp add: get_project_meta_def split: if_splits)
    then show ?thesis by simp
  qed
qed

lemma main_inl:
  assumes "fst (column_updater_main rsp env a rows s) = Inl e"
  shows "\<not> from_update_or_link e"
proof -
  let ?c = "GetProject (project_key a)"
  obtain res j where g: "get_project_meta rsp (project_key a) (new_jira s) = (res, j)"
    by (cases "get_project_meta rsp (project_key a) (new_jira s)")
  show ?thesis
  proof (cases res)
    case (Inl e')
    with g assms have "e = e'" by (simp add: column_updater_main_def)
    moreover have "error_call e' = Some ?c"
      using get_project_meta_inl[of rsp "project_key a" "new_jira s" e'] g Inl by simp
    ultimately show ?thesis by (simp add: from_update_or_link_def is_primary_def is_link_def)
  next
    case (Inr project)
    with g assms have "fst (rows_loop rsp env a project rows (start j)) = Inl e"
      by (simp add: column_updater_main_def)
    then show ?thesis by (rule rows_loop_inl)
  qed
qed

lemma failed_task_aborts:
  assumes "r ''Summary'' = Some summary" and "r ''Issue Type'' = Some ''Task''"
    and "fst (create_issue rsp (task_fields a r summary) (imp_dry_run a) st) = Inr None"
  shows "import_rows rsp a idx (r # rest) st
           = (Inl (SystemExit ''Failed to create task''),
              snd (create_issue rsp (task_fields a r summary) (imp_dry_run a) st))"
proof -
  obtain st' where c: "create_issue rsp (task_fields a r summary) (imp_dry_run a) st = (Inr None, st')"
    using assms(3) by (cases "create_issue rsp (task_fields a r summary) (imp_dry_run a) st") simp
  then have "task_row rsp a idx r summary st = (Inl (SystemExit ''Failed to create task''), st')"
    by (simp add: task_row_def truthy_def)
  with assms(1,2) c show ?thesis by (simp add: import_row_def)
qed

text \<open>
  C4, amended. In the ColumnUpdater a failure of a row's update call (and of a link
  call) is caught in the loop: no error of such a call ever ends the run, and after a
  row whose key was resolved and whose fields were built the loop goes on with the
  remaining rows whatever the update answered. In the Importer a failed creation of a
  task ends the run at once: the remaining rows are not processed.
\<close>

theorem update_failure_survives:
  "(fst (column_updater_main rsp env a rows s) = Inl e \<longrightarrow> \<not> from_update_or_link e)
   \<and> (\<not> cap_reached a st \<and> fst (resolve_key rsp a r (conn st)) = Inr (Some key)
        \<and> fst (build_fields rsp env r (startdate_field a) project
                  (snd (resolve_key rsp a r (conn st)))) = Inr fs
      \<longrightarrow> rows_loop rsp env a project (r # rest) st
            = rows_loop rsp env a project rest (snd (process_row rsp env a project r st)))
   \<and> (ir ''Summary'' = Some summary \<and> ir ''Issue Type'' = Some ''Task''
        \<and> fst (create_issue irsp (task_fields ia ir summary) (imp_dry_run ia) ist) = Inr None
      \<longrightarrow> import_rows irsp ia idx (ir # irest) ist
            = (Inl (SystemExit ''Failed to create task''),
               snd (create_issue irsp (task_fields ia ir summary) (imp_dry_run ia) ist)))"
proof (intro conjI impI)
  assume "fst (column_updater_main rsp env a rows s) = Inl e"
  then show "\<not> from_update_or_link e" by (rule main_inl)
next
  assume h: "\<not> cap_reached a st \<and> fst (resolve_key rsp a r (conn st)) = Inr (Some key)
        \<and> fst (build_fields rsp env r (startdate_field a) project
                  (snd (resolve_key rsp a r (conn st)))) = Inr fs"
  then have "fst (process_row rsp env a project r st) = Inr ()"
    by (simp add: process_row_hit)
  with h show "rows_loop rsp env a project (r # rest) st
            = rows_loop rsp env a project rest (snd (process_row rsp env a project r st))"
    by (cases "process_row rsp env a project r st") simp
next
  assume h: "ir ''Summary'' = Some summary \<and> ir ''Issue Type'' = Some ''Task''
        \<and> fst (create_issue irsp (task_fields ia ir summary) (imp_dry_run ia) ist) = Inr None"
  show "import_rows irsp ia idx (ir # irest) ist
            = (Inl (SystemExit ''Failed to create task''),
               snd (create_issue irsp (task_fields ia ir summary) (imp_dry_run ia) ist))"
    by (rule failed_task_aborts) (simp_all add: h)
qed


theorem update_failure_survives_witness:
  "fst (column_updater_main offline_search_tracker env0 live_args [row_a1, row_bridge] ())
     = Inl (RequestException (search_call ''P'' ''Build bridge''))
   \<and> \<not> from_update_or_link (RequestException (search_call ''P'' ''Build bridge''))
   \<and> \<not> cap_reached live_args (start (new_jira ()))
   \<and> fst (resolve_key refusing_tracker live_args row_a1 (conn (start (new_jira ())))) = Inr (Some ''A-1'')
   \<and> fst (build_fields refusing_tracker env0 row_a1 (startdate_field live_args) (JProject ''10'')
             (snd (resolve_key refusing_tracker live_args row_a1 (conn (start (new_jira ())))))) = Inr []
   \<and> rows_loop refusing_tracker env0 live_args (JProject ''10'') [row_a1, row_a2] (start (new_jira ()))
       = rows_loop refusing_tracker env0 live_args (JProject ''10'') [row_a2]
           (snd (process_row refusing_tracker env0 live_args (JProject ''10'') row_a1 (start (new_jira ()))))
   \<and> task_a ''Summary'' = Some ''A'' \<and> task_a ''Issue Type'' = Some ''Task''
   \<and> fst (create_issue rejecting_tracker (task_fields import_live task_a ''A'')
             (imp_dry_run import_live) (new_importer ())) = Inr None
   \<and> fst (import_rows rejecting_tracker import_live 1 [task_a, task_b] (new_importer ()))
       = Inl (SystemExit ''Failed to create task'')"
proof -
  have e1: "fst (column_updater_main offline_search_tracker env0 live_args [row_a1, row_bridge] ())
              = Inl (RequestException (search_call ''P'' ''Build bridge''))"
    by code_simp
  have c0: "\<not> cap_reached live_args (start (new_jira ()))"
    by (simp add: cap_reached_def live_args_def)
  have h1: "fst (resolve_key refusing_tracker live_args row_a1 (conn (start (new_jira ()))))
              = Inr (Some ''A-1'')"
    by code_simp
  have h2: "fst (build_fields refusing_tracker env0 row_a1 (startdate_field live_args) (JProject ''10'')
             (snd (resolve_key refusing_tracker live_args row_a1 (conn (start (new_jira ())))))) = Inr []"
    by code_simp
  have i1: "task_a ''Summary'' = Some ''A''" and i2: "task_a ''Issue Type'' = Some ''Task''"
    by (simp_all add: task_a_def)
  have i3: "fst (create_issue rejecting_tracker (task_fields import_live task_a ''A'')
             (imp_dry_run import_live) (new_importer ())) = Inr None"
    by code_simp
  note t = update_failure_survives[where rsp=offline_search_tracker and env=env0 and a=live_args
      and rows="[row_a1, row_bridge]" and s="()"
      and e="RequestException (search_call ''P'' ''Build bridge'')"]
  note u = update_failure_survives[where rsp=refusing_tracker and env=env0 and a=live_args
      and st="start (new_jira ())" and r=row_a1 and key="''A-1''" and fs="[]"
      and project="JProject ''10''" and rest="[row_a2]"
      and irsp=rejecting_tracker and ia=import_live and ir=task_a and summary="''A''"
      and ist="new_importer ()" and idx=1 and irest="[task_b]"]
  from t e1 have a: "\<not> from_update_or_link (RequestException (search_call ''P'' ''Build bridge''))"
    by blast
  from u c0 h1 h2 have b: "rows_loop refusing_tracker env0 live_args (JProject ''10'') [row_a1, row_a2]
        (start (new_jira ()))
       = rows_loop refusing_tracker env0 live_args (JProject ''10'') [row_a2]
           (snd (process_row refusing_tracker env0 live_args (JProject ''10'') row_a1 (start (new_jira ()))))"
    by blast
  from u i1 i2 i3 have "import_rows rejecting_tracker import_live 1 [task_a, task_b] (new_importer ())
       = (Inl (SystemExit ''Failed to create task''),
          snd (create_issue rejecting_tracker (task_fields import_live task_a ''A'')
                 (imp_dry_run import_live) (new_importer ())))"
    by blast
  then have c: "fst (import_rows rejecting_tracker import_live 1 [task_a, task_b] (new_importer ()))
       = Inl (SystemExit ''Failed to create task'')"
    by simp
  from e1 a c0 h1 h2 b i1 i2 i3 c show ?thesis by blast
qed

text \<open>
  C4 as stated fails: the tracker answers the creation of the first task with status 400,
  and the Importer ends the run there; the second row is never processed.
\<close>

theorem create_failure_counterexample:
  "fst (importer_main rejecting_tracker import_live [task_a, task_b] ())
     = Inl (SystemExit ''Failed to create task'')
   \<and> sent (snd (importer_main rejecting_tracker import_live [task_a, task_b] ()))
       = [CreateIssue [(''summary'', FStr ''A''), (''project'', FKey ''P''),
                       (''issuetype'', FName ''Task''), (''description'', FDoc '' '')]]
   \<and> made (snd (importer_main rejecting_tracker import_live [task_a, task_b] ())) = []"
  by code_simp


section \<open>Components are created once\<close>

lemma created_components_append:
  "created_components (xs @ ys) = created_components xs @ created_components ys"
  by (induction xs) (auto split: call.splits)

lemma request_rel:
  assumes "request rsp c j = (res, j')"
  shows "trace j' = trace j @ [c]" and "component_cache j' = component_cache j"
  using request_snd[of rsp c j] assms by simp_all

lemma request_same:
  assumes "request rsp c j = (res, j')" and "\<not> is_create_component c"
  shows "same_comp j j'"
  using request_rel[OF assms(1)] assms(2)
  by (cases c) (simp_all add: same_comp_def cc_def created_components_append is_create_component_def)

lemma same_comp_refl: "same_comp j j"
  by (simp add: same_comp_def)

lemma same_comp_trans: "same_comp j j' \<Longrightarrow> same_comp j' j'' \<Longrightarrow> same_comp j j''"
  by (simp add: same_comp_def)

lemma same_comp_other_caches:
  "same_comp j (j\<lparr>user_cache := u\<rparr>)" "same_comp j (j\<lparr>version_cache := v\<rparr>)"
  by (simp_all add: same_comp_def cc_def)

lemma same_comp_inv: "same_comp j j' \<Longrightarrow> comp_inv j \<Longrightarrow> comp_inv j'"
  by (simp add: same_comp_def comp_inv_def comp_map_of_def)

lemma search_same: "same_comp j (snd (search_issue_by_summary rsp pk q j))"
proof -
  obtain res j' where r: "request rsp (search_call pk q) j = (res, j')"
    by (cases "request rsp (search_call pk q) j")
  have "same_comp j j'"
    using request_same[OF r] by (simp add: search_call_def is_create_component_def)
  moreover have "snd (search_issue_by_summary rsp pk q j) = j'"
    using r by (simp add: search_issue_by_summary_def split: sum.splits body.splits)
  ultimately show ?thesis by simp
qed

lemma resolve_key_same: "same_comp j (snd (resolve_key rsp a r j))"
proof -
  let ?s = "search_issue_by_summary rsp (project_key a) (strip (or_empty (r ''Summary''))) j"
  have "snd (resolve_key rsp a r j) = j \<or> snd (resolve_key rsp a r j) = snd ?s"
    by (cases ?s) (auto simp: resolve_key_def Let_def split: sum.splits option.splits)
  then show ?thesis using search_same[of j rsp "project_key a"] same_comp_refl by metis
qed

lemma resolve_user_same: "same_comp j (snd (resolve_user_account_id rsp email j))"
proof (cases "user_cache j email")
  case (Some acct)
  then show ?thesis by (simp add: resolve_user_account_id_def same_comp_refl)
next
  case None
  obtain res j' where r: "request rsp (UserSearch email) j = (res, j')"
    by (cases "request rsp (UserSearch email) j")
  have s: "same_comp j j'"
    using request_same[OF r] by (simp add: is_create_component_def)
  have "snd (resolve_user_account_id rsp email j) = j'
        \<or> (\<exists>u. snd (resolve_user_account_id rsp email j) = j'\<lparr>user_cache := u\<rparr>)"
    using r None
    by (auto simp: resolve_user_account_id_def Let_def split: sum.splits body.splits)
  with s show ?thesis
    using same_comp_other_caches(1) same_comp_trans by metis
qed

lemma version_same: "same_comp j (snd (get_or_create_version rsp pid name j))"
proof -
  let ?vc = "case version_cache j pid of None \<Rightarrow> Map.empty | Some m \<Rightarrow> m"
  let ?j0 = "j\<lparr>version_cache := (version_cache j)(pid \<mapsto> ?vc)\<rparr>"
  let ?g = "get_or_create_version rsp pid name j"
  have s0: "same_comp j ?j0" by (rule same_comp_other_caches)
  show ?thesis
  proof (cases "?vc name")
    case (Some v)
    then have "snd ?g = ?j0" by (simp add: get_or_create_version_def Let_def)
    with s0 show ?thesis by simp
  next
    case None
    obtain res j1 where r: "request rsp (ListVersions pid) ?j0 = (res, j1)"
      by (cases "request rsp (ListVersions pid) ?j0")
    have "same_comp ?j0 j1" using request_same[OF r] by (simp add: is_create_component_def)
    with s0 have s1: "same_comp j j1" by (rule same_comp_trans)
    have s1': "same_comp j (j1\<lparr>version_cache := v\<rparr>)" for v
      using s1 same_comp_other_caches(2)[of j1 v] by (rule same_comp_trans)
    show ?thesis
    proof (cases res)
      case (Inl e)
      with r None have "snd ?g = j1" by (simp add: get_or_create_version_def Let_def)
      with s1 show ?thesis by simp
    next
      case (Inr b)
      show ?thesis
      proof (cases "entities_of b")
        case None
        with Inr r \<open>?vc name = None\<close> have "snd ?g = j1"
          by (simp add: get_or_create_version_def Let_def)
        with s1 show ?thesis by simp
      next
        case (Some versions)
        let ?f = "find (\<lambda>v. lower (strip (ent_name v)) = lower (strip name)) versions"
        show ?thesis
        proof (cases ?f)
          case (Some v)
          with \<open>entities_of b = Some versions\<close> Inr r \<open>?vc name = None\<close>
          have "snd ?g = j1\<lparr>version_cache := (version_cache j1)(pid \<mapsto> ?vc(name \<mapsto> v))\<rparr>"
            by (simp add: get_or_create_version_def Let_def)
          with s1' show ?thesis by simp
        next
          case None
          obtain res2 j2 where r2: "request rsp (CreateVersion name pid) j1 = (res2, j2)"
            by (cases "request rsp (CreateVersion name pid) j1")
          have "same_comp j1 j2" using request_same[OF r2] by (simp add: is_create_component_def)
          with s1 have s2: "same_comp j j2" by (rule same_comp_trans)
          have s2': "same_comp j (j2\<lparr>version_cache := v\<rparr>)" for v
            using s2 same_comp_other_caches(2)[of j2 v] by (rule same_comp_trans)
          show ?thesis
          proof (cases res2)
            case (Inl e)
            with r2 None \<open>entities_of b = Some versions\<close> \<open>res = Inr b\<close> r \<open>?vc name = None\<close>
            have "snd ?g = j2" by (simp add: get_or_create_version_def Let_def)
            with s2 show ?thesis by simp
          next
            case (Inr b2)
            show ?thesis
            proof (cases "\<exists>v. b2 = JEntity v")
              case True
              then obtain v where "b2 = JEntity v" by blast
              with Inr r2 None \<open>entities_of b = Some versions\<close> \<open>res = Inr b\<close> r \<open>?vc name = None\<close>
              have "snd ?g = j2\<lparr>version_cache := (version_cache j2)(pid \<mapsto> ?vc(name \<mapsto> v))\<rparr>"
                by (simp add: get_or_create_version_def Let_def)
              with s2' show ?thesis by simp
            next
              case False
              with Inr r2 None \<open>entities_of b = Some versions\<close> \<open>res = Inr b\<close> r \<open>?vc name = None\<close>
              have "snd ?g = j2"
                by (cases b2) (simp_all add: get_or_create_version_def Let_def)
              with s2 show ?thesis by simp
            qed
          qed
        qed
      qed
    qed
  qed
qed

lemma add_versions_same: "same_comp j (snd (add_versions rsp pid vnames ids j))"
proof (induction vnames arbitrary: ids j)
  case Nil
  then show ?case by (simp add: same_comp_refl)
next
  case (Cons vname vnames)
  obtain res j' where r: "get_or_create_version rsp pid vname j = (res, j')"
    by (cases "get_or_create_version rsp pid vname j")
  then have s: "same_comp j j'" using version_same[of j rsp pid vname] by simp
  show ?case
  proof (cases res)
    case (Inl e)
    with r s show ?thesis by simp
  next
    case (Inr v)
    with r have "snd (add_versions rsp pid (vname # vnames) ids j)
                   = snd (add_versions rsp pid vnames (ids @ [ent_id v]) j')"
      by simp
    with s Cons.IH[of j' "ids @ [ent_id v]"] show ?thesis
      using same_comp_trans by metis
  qed
qed

lemma and_then_snd:
  "snd (and_then m f j) = (case m j of (Inl e, j') \<Rightarrow> j' | (Inr x, j') \<Rightarrow> snd (f x j'))"
  by (simp add: and_then_def split: prod.splits sum.splits)

lemma set_versions_same: "same_comp j (snd (set_versions rsp r project fs j))"
proof (cases "cell r ''FixVersions''")
  case None
  then show ?thesis by (simp add: set_versions_def same_comp_refl)
next
  case (Some vers)
  show ?thesis
  proof (cases "project_id_of project")
    case (Inl e)
    with Some show ?thesis by (simp add: set_versions_def same_comp_refl)
  next
    case (Inr pid)
    have "snd (set_versions rsp r project fs j) = snd (add_versions rsp pid (tokens vers) [] j)"
      using Some Inr by (simp add: set_versions_def and_then_snd split: prod.splits sum.splits)
    then show ?thesis by (simp add: add_versions_same)
  qed
qed

lemma set_assignee_same: "same_comp j (snd (set_assignee rsp r fs j))"
proof (cases "cell r ''AssigneeEmail''")
  case None
  then show ?thesis by (simp add: set_assignee_def same_comp_refl)
next
  case (Some ass_email)
  have "snd (set_assignee rsp r fs j) = snd (resolve_user_account_id rsp (strip ass_email) j)"
    using Some by (simp add: set_assignee_def and_then_snd split: prod.splits sum.splits)
  then show ?thesis by (simp add: resolve_user_same)
qed

lemma update_same: "same_comp j (snd (update_issue_fields rsp key fs dry j))"
proof (cases dry)
  case True
  then show ?thesis by (simp add: update_issue_fields_def same_comp_refl)
next
  case False
  obtain res j' where r: "request rsp (UpdateIssue key fs) j = (res, j')"
    by (cases "request rsp (UpdateIssue key fs) j")
  have "same_comp j j'" using request_same[OF r] by (simp add: is_create_component_def)
  moreover have "snd (update_issue_fields rsp key fs dry j) = j'"
    using r False by (simp add: update_issue_fields_def split: sum.splits)
  ultimately show ?thesis by simp
qed

lemma link_same: "same_comp j (snd (add_issue_link_is_blocked_by rsp x y dry j))"
proof (cases dry)
  case True
  then show ?thesis by (simp add: add_issue_link_is_blocked_by_def same_comp_refl)
next
  case False
  obtain res j' where r: "request rsp (CreateLink x y) j = (res, j')"
    by (cases "request rsp (CreateLink x y) j")
  have "same_comp j j'" using request_same[OF r] by (simp add: is_create_component_def)
  moreover have "snd (add_issue_link_is_blocked_by rsp x y dry j) = j'"
    using r False by (simp add: add_issue_link_is_blocked_by_def split: sum.splits)
  ultimately show ?thesis by simp
qed

lemma update_step_same: "same_comp (conn st) (conn (update_step rsp a key fs st))"
proof -
  have "conn (update_step rsp a key fs st)
          = snd (update_issue_fields rsp key fs (dry_run a) (conn st))"
    by (simp add: update_step_def split: prod.splits sum.splits)
  then show ?thesis by (simp add: update_same)
qed

lemma link_deps_same: "same_comp (conn st) (conn (link_deps rsp a key deps st))"
proof (induction deps arbitrary: st)
  case Nil
  then show ?case by (simp add: same_comp_refl)
next
  case (Cons dep deps)
  let ?res = "case dependencies_direction a of
                blocked_by \<Rightarrow> add_issue_link_is_blocked_by rsp key dep (dry_run a) (conn st)
              | blocks \<Rightarrow> add_issue_link_is_blocked_by rsp dep key (dry_run a) (conn st)"
  have s: "same_comp (conn st) (snd ?res)"
    by (cases "dependencies_direction a") (simp_all add: link_same)
  obtain res j' where r: "?res = (res, j')" by (cases ?res)
  show ?case
  proof (cases res)
    case (Inl e)
    with r have "link_deps rsp a key (dep # deps) st = link_deps rsp a key deps (st\<lparr>conn := j'\<rparr>)"
      by simp
    with s r Cons.IH[of "st\<lparr>conn := j'\<rparr>"] show ?thesis
      using same_comp_trans by fastforce
  next
    case (Inr u)
    with r have "link_deps rsp a key (dep # deps) st
                   = link_deps rsp a key deps (st\<lparr>conn := j', linked := linked st + 1\<rparr>)"
      by simp
    with s r Cons.IH[of "st\<lparr>conn := j', linked := linked st + 1\<rparr>"] show ?thesis
      using same_comp_trans by fastforce
  qed
qed

lemma comp_inv_distinct: "comp_inv j \<Longrightarrow> distinct (cc j)"
  by (simp add: comp_inv_def)

lemma list_components_inv:
  assumes "comp_inv j"
  shows "comp_inv (snd (list_project_components rsp pid j))"
proof (cases "component_cache j pid")
  case (Some comps)
  with assms show ?thesis by (simp add: list_project_components_def)
next
  case None
  obtain res j' where r: "request rsp (ListComponents pid) j = (res, j')"
    by (cases "request rsp (ListComponents pid) j")
  have s: "same_comp j j'" using request_same[OF r] by (simp add: is_create_component_def)
  then have inv': "comp_inv j'" using assms same_comp_inv by blast
  have none': "component_cache j' pid = None" using s None by (simp add: same_comp_def)
  show ?thesis
  proof (cases res)
    case (Inl e)
    with r None inv' show ?thesis by (simp add: list_project_components_def)
  next
    case (Inr b)
    show ?thesis
    proof (cases "entities_of b")
      case None
      with Inr r \<open>component_cache j pid = None\<close> inv' show ?thesis
        by (simp add: list_project_components_def)
    next
      case (Some cs)
      let ?j2 = "j'\<lparr>component_cache := (component_cache j')(pid \<mapsto> by_name cs)\<rparr>"
      have eq: "snd (list_project_components rsp pid j) = ?j2"
        using Some Inr r \<open>component_cache j pid = None\<close> by (simp add: list_project_components_def)
      have nopid: "fst pk \<noteq> pid" if "pk \<in> set (cc j')" for pk
      proof
        assume "fst pk = pid"
        with inv' that have "comp_map_of j' pid (snd pk) \<noteq> None"
          by (auto simp: comp_inv_def)
        with none' show False by (simp add: comp_map_of_def)
      qed
      have "comp_inv ?j2"
        unfolding comp_inv_def
      proof (intro conjI ballI)
        show "distinct (cc ?j2)" using inv' by (simp add: comp_inv_def cc_def)
      next
        fix pk assume "pk \<in> set (cc ?j2)"
        then have m: "pk \<in> set (cc j')" by (simp add: cc_def)
        with nopid have "fst pk \<noteq> pid" by blast
        moreover from m inv' have "comp_map_of j' (fst pk) (snd pk) \<noteq> None"
          by (auto simp: comp_inv_def)
        ultimately show "comp_map_of ?j2 (fst pk) (snd pk) \<noteq> None"
          by (simp add: comp_map_of_def)
      qed
      with eq show ?thesis by simp
    qed
  qed
qed

lemma list_components_post:
  assumes "comp_inv j"
  shows "comp_post (list_project_components rsp pid j)"
proof -
  have "comp_inv (snd (list_project_components rsp pid j))"
    using assms by (rule list_components_inv)
  then show ?thesis
    by (cases "list_project_components rsp pid j")
       (auto simp: comp_post_def comp_inv_distinct split: sum.splits)
qed

lemma add_components_post:
  "comp_inv j \<Longrightarrow> comp_post (add_components rsp pid names ids j)"
proof (induction names arbitrary: ids j)
  case Nil
  then show ?case by (simp add: comp_post_def)
next
  case (Cons name names)
  show ?case
  proof (cases "comp_map_of j pid (lower name)")
    case (Some c)
    with Cons.IH[OF Cons.prems, of "ids @ [ent_id c]"] show ?thesis by simp
  next
    case None
    let ?c = "CreateComponent name pid"
    obtain res j' where r: "request rsp ?c j = (res, j')" by (cases "request rsp ?c j")
    note rel = request_rel[OF r]
    have cc': "cc j' = cc j @ [(pid, lower name)]"
      using rel(1) by (simp add: cc_def created_components_append)
    have fresh: "(pid, lower name) \<notin> set (cc j)"
    proof
      assume "(pid, lower name) \<in> set (cc j)"
      with Cons.prems have "comp_map_of j (fst (pid, lower name)) (snd (pid, lower name)) \<noteq> None"
        unfolding comp_inv_def by blast
      with None show False by simp
    qed
    have d': "distinct (cc j')"
      using cc' fresh Cons.prems by (simp add: comp_inv_def)
    show ?thesis
    proof (cases res)
      case (Inl e)
      with r None d' show ?thesis by (simp add: comp_post_def)
    next
      case (Inr b)
      show ?thesis
      proof (cases "\<exists>created. b = JEntity created")
        case False
        with Inr r None d' show ?thesis by (cases b) (simp_all add: comp_post_def)
      next
        case True
        then obtain created where b: "b = JEntity created" by blast
        let ?j2 = "j'\<lparr>component_cache :=
                        (component_cache j')(pid \<mapsto> (comp_map_of j' pid)(lower name \<mapsto> created))\<rparr>"
        have old: "comp_map_of j' p k \<noteq> None" if "(p, k) \<in> set (cc j)" for p k
        proof -
          from that Cons.prems have "comp_map_of j (fst (p, k)) (snd (p, k)) \<noteq> None"
            unfolding comp_inv_def by blast
          then show ?thesis using rel(2) by (simp add: comp_map_of_def)
        qed
        have "comp_inv ?j2"
          unfolding comp_inv_def
        proof (intro conjI ballI)
          show "distinct (cc ?j2)" using d' by (simp add: cc_def)
        next
          fix pk assume "pk \<in> set (cc ?j2)"
          then have "pk \<in> set (cc j) \<or> pk = (pid, lower name)"
            using cc' by (auto simp: cc_def)
          then show "comp_map_of ?j2 (fst pk) (snd pk) \<noteq> None"
          proof
            assume "pk = (pid, lower name)"
            then show ?thesis by (simp add: comp_map_of_def)
          next
            assume m: "pk \<in> set (cc j)"
            then have "comp_map_of j' (fst pk) (snd pk) \<noteq> None"
              using old[of "fst pk" "snd pk"] by simp
            then show ?thesis by (auto simp: comp_map_of_def)
          qed
        qed
        from Cons.IH[OF this, of "ids @ [ent_id created]"] b Inr r None show ?thesis by simp
      qed
    qed
  qed
qed

lemma comp_post_inl: "distinct (cc j) \<Longrightarrow> comp_post (Inl e, j)"
  by (simp add: comp_post_def)

lemma comp_post_inr: "comp_inv j \<Longrightarrow> comp_post (Inr x, j)"
  by (simp add: comp_post_def)

lemma comp_post_snd: "comp_post res \<Longrightarrow> distinct (cc (snd res))"
  by (cases res) (auto simp: comp_post_def comp_inv_distinct split: sum.splits)

lemma comp_post_same:
  assumes "comp_inv j" and "same_comp j (snd res)"
  shows "comp_post res"
proof -
  have "comp_inv (snd res)" using assms same_comp_inv by blast
  then show ?thesis
    by (cases res) (auto simp: comp_post_def comp_inv_distinct split: sum.splits)
qed

lemma and_then_post:
  assumes "comp_post (m j)" and "\<And>x j'. comp_inv j' \<Longrightarrow> comp_post (f x j')"
  shows "comp_post (and_then m f j)"
proof (cases "m j")
  case (Pair res j')
  show ?thesis
  proof (cases res)
    case (Inl e)
    with Pair assms(1) show ?thesis by (simp add: and_then_def comp_post_def)
  next
    case (Inr x)
    with Pair assms(1) have "comp_inv j'" by (simp add: comp_post_def)
    from assms(2)[OF this, of x] Pair Inr show ?thesis by (simp add: and_then_def)
  qed
qed

lemma set_components_post:
  assumes "comp_inv j"
  shows "comp_post (set_components rsp r project fs j)"
proof (cases "cell r ''Components''")
  case None
  with assms show ?thesis by (simp add: set_components_def comp_post_def)
next
  case (Some comps)
  show ?thesis
  proof (cases "project_id_of project")
    case (Inl e)
    with Some assms show ?thesis by (simp add: set_components_def comp_post_def comp_inv_distinct)
  next
    case (Inr pid)
    have "comp_post (and_then (list_project_components rsp pid)
             (\<lambda>comp_map. and_then (add_components rsp pid (tokens comps) [])
                (\<lambda>ids j'. (Inr (put_field ''components'' (FIds ids) fs), j'))) j)"
    proof (rule and_then_post)
      show "comp_post (list_project_components rsp pid j)"
        using assms by (rule list_components_post)
    next
      fix x :: "string \<rightharpoonup> entity" and j' :: "'a jira"
      assume i: "comp_inv j'"
      show "comp_post (and_then (add_components rsp pid (tokens comps) [])
                (\<lambda>ids j'. (Inr (put_field ''components'' (FIds ids) fs), j')) j')"
      proof (rule and_then_post)
        show "comp_post (add_components rsp pid (tokens comps) [] j')"
          using i by (rule add_components_post)
      next
        fix ids :: "string list" and j'' :: "'a jira"
        assume "comp_inv j''"
        then show "comp_post (Inr (put_field ''components'' (FIds ids) fs), j'')"
          by (rule comp_post_inr)
      qed
    qed
    with Some Inr show ?thesis by (simp add: set_components_def)
  qed
qed

lemma build_fields_post:
  assumes "comp_inv j"
  shows "comp_post (build_fields rsp env r sf project j)"
  unfolding build_fields_def
proof (rule and_then_post)
  show "comp_post (set_components rsp r project (set_plain r (set_dates env r sf [])) j)"
    using assms by (rule set_components_post)
next
  fix f1 :: fields and j1 :: "'a jira"
  assume i1: "comp_inv j1"
  show "comp_post (and_then (set_versions rsp r project f1)
          (\<lambda>f2. and_then (set_assignee rsp r f2) (\<lambda>f3 j'. (Inr (set_links env r f3), j'))) j1)"
  proof (rule and_then_post)
    show "comp_post (set_versions rsp r project f1 j1)"
      using i1 set_versions_same by (rule comp_post_same)
  next
    fix f2 :: fields and j2 :: "'a jira"
    assume i2: "comp_inv j2"
    show "comp_post (and_then (set_assignee rsp r f2) (\<lambda>f3 j'. (Inr (set_links env r f3), j')) j2)"
    proof (rule and_then_post)
      show "comp_post (set_assignee rsp r f2 j2)"
        using i2 set_assignee_same by (rule comp_post_same)
    next
      fix f3 :: fields and j3 :: "'a jira"
      assume "comp_inv j3"
      then show "comp_post (Inr (set_links env r f3), j3)" by (rule comp_post_inr)
    qed
  qed
qed

lemma process_row_post:
  assumes "comp_inv (conn st)"
  shows "run_post (process_row rsp env a project r st)"
proof -
  obtain res j1 where r1: "resolve_key rsp a r (conn st) = (res, j1)"
    by (cases "resolve_key rsp a r (conn st)")
  have "same_comp (conn st) j1" using resolve_key_same[of "conn st" rsp a r] r1 by simp
  then have i1: "comp_inv j1" using assms same_comp_inv by blast
  show ?thesis
  proof (cases res)
    case (Inl e)
    with r1 i1 show ?thesis by (simp add: process_row_def run_post_def comp_inv_distinct)
  next
    case (Inr k)
    show ?thesis
    proof (cases k)
      case None
      with Inr r1 i1 show ?thesis by (simp add: process_row_def run_post_def)
    next
      case (Some key)
      obtain res2 j2 where r2: "build_fields rsp env r (startdate_field a) project j1 = (res2, j2)"
        by (cases "build_fields rsp env r (startdate_field a) project j1")
      have p2: "comp_post (res2, j2)"
        using build_fields_post[OF i1, of rsp env r "startdate_field a" project] r2 by simp
      show ?thesis
      proof (cases res2)
        case (Inl e)
        with r2 Some Inr r1 p2 show ?thesis
          by (simp add: process_row_def run_post_def comp_post_def)
      next
        case (Inr fs)
        with p2 have i2: "comp_inv j2" by (simp add: comp_post_def)
        let ?st1 = "update_step rsp a key fs (st\<lparr>conn := j2\<rparr>)"
        have "same_comp j2 (conn ?st1)"
          using update_step_same[of "st\<lparr>conn := j2\<rparr>" rsp a key fs] by simp
        moreover have "same_comp (conn ?st1) (conn (link_deps rsp a key (deps_of r) ?st1))"
          by (rule link_deps_same)
        ultimately have "comp_inv (conn (link_deps rsp a key (deps_of r) ?st1))"
          using i2 same_comp_inv by blast
        with Inr r2 Some \<open>res = Inr k\<close> r1 show ?thesis
          by (simp add: process_row_def run_post_def)
      qed
    qed
  qed
qed

lemma rows_loop_post:
  "comp_inv (conn st) \<Longrightarrow> run_post (rows_loop rsp env a project rows st)"
proof (induction rows arbitrary: st)
  case Nil
  then show ?case by (simp add: run_post_def)
next
  case (Cons r rows)
  show ?case
  proof (cases "cap_reached a st")
    case True
    with Cons.prems show ?thesis by (simp add: run_post_def)
  next
    case False
    obtain res st' where p: "process_row rsp env a project r st = (res, st')"
      by (cases "process_row rsp env a project r st")
    have pp: "run_post (res, st')"
      using process_row_post[OF Cons.prems, of rsp env a project r] p by simp
    show ?thesis
    proof (cases res)
      case (Inl e)
      with p False pp show ?thesis by (simp add: run_post_def)
    next
      case (Inr u)
      with pp have "comp_inv (conn st')" by (simp add: run_post_def)
      from Cons.IH[OF this] Inr p False show ?thesis by simp
    qed
  qed
qed

lemma main_created_once:
  "distinct (cc (conn (snd (column_updater_main rsp env a rows s))))"
proof -
  let ?c = "GetProject (project_key a)"
  obtain res j where g: "request rsp ?c (new_jira s) = (res, j)"
    by (cases "request rsp ?c (new_jira s)")
  have i0: "comp_inv (new_jira s)" by (simp add: comp_inv_def cc_def new_jira_def)
  have "same_comp (new_jira s) j" using request_same[OF g] by (simp add: is_create_component_def)
  then have i: "comp_inv j" using i0 same_comp_inv by blast
  show ?thesis
  proof (cases res)
    case (Inl e)
    with g i show ?thesis
      by (simp add: column_updater_main_def get_project_meta_def start_def comp_inv_distinct)
  next
    case (Inr project)
    have "comp_inv (conn (start j))" using i by (simp add: start_def)
    from rows_loop_post[OF this, of rsp env a project rows]
    have "distinct (cc (conn (snd (rows_loop rsp env a project rows (start j)))))"
      by (cases "rows_loop rsp env a project rows (start j)")
         (auto simp: run_post_def comp_inv_distinct split: sum.splits)
    moreover have "distinct (cc (conn (start j)))"
      using i by (simp add: start_def comp_inv_distinct)
    ultimately show ?thesis using g Inr
      by (simp add: column_updater_main_def get_project_meta_def)
  qed
qed

lemma add_components_known:
  "\<forall>n \<in> set names. comp_map_of j pid (lower n) \<noteq> None
   \<Longrightarrow> snd (add_components rsp pid names ids j) = j"
  by (induction names arbitrary: ids) auto

lemma add_components_absent:
  assumes "comp_map_of j pid (lower name) = None"
  shows "trace (snd (add_components rsp pid [name] ids j)) = trace j @ [CreateComponent name pid]"
proof -
  obtain res j' where r: "request rsp (CreateComponent name pid) j = (res, j')"
    by (cases "request rsp (CreateComponent name pid) j")
  note rel = request_rel[OF r]
  show ?thesis using assms r rel(1)
    by (cases res) (auto split: body.splits)
qed

text \<open>
  C7. In a run of the ColumnUpdater no component is created twice: the component
  creations sent to the tracker have pairwise different (project, lower-cased name). A
  row whose component names are all in the project's cache, listed or created by an
  earlier row, sends nothing; a name that is not in the cache is created with exactly
  one call.
\<close>

theorem component_created_once:
  "distinct (created_components (trace (conn (snd (column_updater_main rsp env a rows s)))))
   \<and> ((\<forall>n \<in> set names. comp_map_of j pid (lower n) \<noteq> None)
        \<longrightarrow> snd (add_components rsp pid names ids j) = j)
   \<and> (comp_map_of j pid (lower name) = None
        \<longrightarrow> trace (snd (add_components rsp pid [name] ids j)) = trace j @ [CreateComponent name pid])"
  using main_created_once[of rsp env a rows s] add_components_known[of names j pid rsp ids]
    add_components_absent[of j pid name rsp ids]
  by (simp add: cc_def)


theorem component_created_once_witness:
  "comp_map_of jira_after_deck ''10'' (lower ''deck'') \<noteq> None
   \<and> comp_map_of jira_after_deck ''10'' (lower ''Deck'') \<noteq> None
   \<and> trace (snd (add_components plain_tracker ''10'' [''deck'', ''Deck''] [] jira_after_deck))
       = [ListComponents ''10'', CreateComponent ''Deck'' ''10'']
   \<and> comp_map_of jira_listed ''10'' (lower ''Deck'') = None
   \<and> trace (snd (add_components plain_tracker ''10'' [''Deck''] [] jira_listed))
       = [ListComponents ''10'', CreateComponent ''Deck'' ''10'']
   \<and> created_components
         (trace (conn (snd (column_updater_main plain_tracker env0 live_args [row_deck, row_deck2] ()))))
       = [(''10'', ''deck'')]
   \<and> distinct (created_components
         (trace (conn (snd (column_updater_main plain_tracker env0 live_args [row_deck, row_deck2] ())))))"
proof -
  have k1: "comp_map_of jira_after_deck ''10'' (lower ''deck'') \<noteq> None"
    by code_simp
  have k2: "comp_map_of jira_after_deck ''10'' (lower ''Deck'') \<noteq> None"
    by code_simp
  from k1 k2
  have h2: "\<forall>n \<in> set [''deck'', ''Deck'']. comp_map_of jira_after_deck ''10'' (lower n) \<noteq> None"
    by simp
  have t1: "trace jira_after_deck = [ListComponents ''10'', CreateComponent ''Deck'' ''10'']"
    by code_simp
  have h3: "comp_map_of jira_listed ''10'' (lower ''Deck'') = None"
    by code_simp
  have t0: "trace jira_listed = [ListComponents ''10'']"
    by code_simp
  have run: "created_components
         (trace (conn (snd (column_updater_main plain_tracker env0 live_args [row_deck, row_deck2] ()))))
       = [(''10'', ''deck'')]"
    by code_simp
  note t = component_created_once[where rsp=plain_tracker and env=env0 and a=live_args
      and rows="[row_deck, row_deck2]" and s="()" and names="[''deck'', ''Deck'']"
      and j=jira_after_deck and pid="''10''" and ids="[]"]
  note u = component_created_once[where rsp=plain_tracker and env=env0 and a=live_args
      and rows="[row_deck, row_deck2]" and s="()" and name="''Deck''"
      and j=jira_listed and pid="''10''" and ids="[]"]
  from t h2 have "snd (add_components plain_tracker ''10'' [''deck'', ''Deck''] [] jira_after_deck)
                    = jira_after_deck"
    by blast
  with t1 have a: "trace (snd (add_components plain_tracker ''10'' [''deck'', ''Deck''] [] jira_after_deck))
       = [ListComponents ''10'', CreateComponent ''Deck'' ''10'']"
    by simp
  from u h3 have "trace (snd (add_components plain_tracker ''10'' [''Deck''] [] jira_listed))
       = trace jira_listed @ [CreateComponent ''Deck'' ''10'']"
    by blast
  with t0 have b: "trace (snd (add_components plain_tracker ''10'' [''Deck''] [] jira_listed))
       = [ListComponents ''10'', CreateComponent ''Deck'' ''10'']"
    by simp
  from t have d: "distinct (created_components
         (trace (conn (snd (column_updater_main plain_tracker env0 live_args [row_deck, row_deck2] ())))))"
    by blast
  from k1 k2 a h3 b run d show ?thesis by blast
qed


section \<open>Normalised dates\<close>

lemma index_of_nth:
  "distinct xs \<Longrightarrow> k < length xs \<Longrightarrow> index_of (xs ! k) xs = k"
proof (induction xs arbitrary: k)
  case Nil
  then show ?case by simp
next
  case (Cons x xs)
  then show ?case by (cases k) auto
qed

lemma digits_distinct: "distinct digits" and digits_length: "length digits = 10"
  by (simp_all add: digits_def)

lemma digit_is_digit: "is_digit (digit n)"
  by (simp add: is_digit_def digit_def digits_length)

lemma digit_val_digit: "digit_val (digit n) = n mod 10"
  by (simp add: digit_val_def digit_def index_of_nth digits_distinct digits_length)

lemma digits_plain: "c \<in> set digits \<Longrightarrow> \<not> isspace c \<and> c \<noteq> CHR ''-''"
  by (auto simp: digits_def isspace_def)

lemma digit_plain: "\<not> isspace (digit n)" "digit n \<noteq> CHR ''-''"
  using digits_plain[of "digit n"] digit_is_digit[of n] by (simp_all add: is_digit_def)

lemma four_digits:
  fixes y :: nat
  assumes "y < 10000"
  shows "1000 * (y div 1000 mod 10) + 100 * (y div 100 mod 10) + 10 * (y div 10 mod 10) + y mod 10 = y"
proof -
  define a where "a = y div 1000"
  define b where "b = y div 100 mod 10"
  define c where "c = y div 10 mod 10"
  define e where "e = y mod 10"
  have y10: "y = 10 * (y div 10) + e" by (simp add: e_def)
  have "y div 10 = 10 * (y div 10 div 10) + c" by (simp add: c_def)
  moreover have "y div 10 div 10 = y div 100" by (simp add: div_mult2_eq)
  ultimately have y100: "y div 10 = 10 * (y div 100) + c" by simp
  have "y div 100 = 10 * (y div 100 div 10) + b" by (simp add: b_def)
  moreover have "y div 100 div 10 = a" by (simp add: div_mult2_eq a_def)
  ultimately have y1000: "y div 100 = 10 * a + b" by simp
  have "a < 10" using assms by (simp add: a_def)
  then have am: "y div 1000 mod 10 = a" by (simp add: a_def)
  have "y = 10 * (10 * (10 * a + b) + c) + e"
    using y10 y100 y1000 by simp
  then have "1000 * a + 100 * b + 10 * c + e = y" by simp
  then show ?thesis by (simp only: am b_def c_def e_def)
qed

lemma year_alts_pad4:
  assumes "y < 10000"
  shows "year_alts (pad4 y @ r) = [(y, r)]"
proof -
  have "year_alts (pad4 y @ r)
          = [(1000 * (y div 1000 mod 10) + 100 * (y div 100 mod 10) + 10 * (y div 10 mod 10) + y mod 10, r)]"
    by (simp add: year_alts_def pad4_def digit_is_digit digit_val_digit)
  then show ?thesis by (simp only: four_digits[OF assms])
qed

lemma month_alts_pad2:
  assumes "1 \<le> m" and "m \<le> 12"
  shows "take 1 (month_alts (pad2 m @ r)) = [(m, r)]"
proof -
  from assms have "m = 1 \<or> m = 2 \<or> m = 3 \<or> m = 4 \<or> m = 5 \<or> m = 6 \<or> m = 7 \<or> m = 8 \<or> m = 9
      \<or> m = 10 \<or> m = 11 \<or> m = 12"
    by arith
  then show ?thesis
    by (elim disjE)
       (simp_all add: month_alts_def two_def one_def pad2_def digit_def digits_def digit_val_def
          nonzero_digit_def is_digit_def)
qed

lemma day_alts_pad2:
  assumes "1 \<le> d" and "d \<le> 31"
  shows "take 1 (day_alts (pad2 d @ r)) = [(d, r)]"
proof -
  from assms have "d = 1 \<or> d = 2 \<or> d = 3 \<or> d = 4 \<or> d = 5 \<or> d = 6 \<or> d = 7 \<or> d = 8 \<or> d = 9
      \<or> d = 10 \<or> d = 11 \<or> d = 12 \<or> d = 13 \<or> d = 14 \<or> d = 15 \<or> d = 16 \<or> d = 17 \<or> d = 18
      \<or> d = 19 \<or> d = 20 \<or> d = 21 \<or> d = 22 \<or> d = 23 \<or> d = 24 \<or> d = 25 \<or> d = 26 \<or> d = 27
      \<or> d = 28 \<or> d = 29 \<or> d = 30 \<or> d = 31"
    by arith
  then show ?thesis
    by (elim disjE)
       (simp_all add: day_alts_def two_def one_def pad2_def digit_def digits_def digit_val_def
          nonzero_digit_def is_digit_def)
qed

lemma first_some_take1:
  "take 1 xs = [x] \<Longrightarrow> f x = Some y \<Longrightarrow> first_some f xs = Some y"
  by (cases xs) auto

lemma first_some_single: "first_some f [x] = f x"
  by (cases "f x") simp_all

lemma alts_year:
  "y < 10000 \<Longrightarrow> alts DY (pad4 y @ r) acc = [(set_field DY y acc, r)]"
  by (simp add: year_alts_pad4)

lemma alts_month:
  assumes "1 \<le> m" and "m \<le> 12"
  shows "take 1 (alts Dm (pad2 m @ r) acc) = [(set_field Dm m acc, r)]"
  using month_alts_pad2[OF assms, of r] by (simp add: take_map)

lemma alts_day:
  assumes "1 \<le> d" and "d \<le> 31"
  shows "take 1 (alts Dd (pad2 d @ r) acc) = [(set_field Dd d acc, r)]"
  using day_alts_pad2[OF assms, of r] by (simp add: take_map)

lemma alts_dash: "alts (Lit CHR ''-'') (CHR ''-'' # r) acc = [(acc, r)]"
  by simp

lemma re_match_day:
  assumes "1 \<le> d" and "d \<le> 31"
  shows "re_match [Dd] (pad2 d) acc = Some (set_field Dd d acc, [])"
proof -
  have "take 1 (alts Dd (pad2 d) acc) = [(set_field Dd d acc, [])]"
    using alts_day[OF assms, of "[]" acc] by simp
  then show ?thesis by (simp add: first_some_take1)
qed

lemma re_match_month_day:
  assumes "1 \<le> m" and "m \<le> 12" and "1 \<le> d" and "d \<le> 31"
  shows "re_match [Dm, Lit CHR ''-'', Dd] (pad2 m @ CHR ''-'' # pad2 d) acc
           = Some (set_field Dd d (set_field Dm m acc), [])"
proof -
  have rest: "re_match [Lit CHR ''-'', Dd] (CHR ''-'' # pad2 d) acc'
                = Some (set_field Dd d acc', [])" for acc'
    using re_match_day[OF assms(3,4), of acc']
    by (simp del: alts.simps first_some.simps add: alts_dash first_some_single)
  have "take 1 (alts Dm (pad2 m @ CHR ''-'' # pad2 d) acc)
          = [(set_field Dm m acc, CHR ''-'' # pad2 d)]"
    by (rule alts_month[OF assms(1,2)])
  then have "first_some (\<lambda>(acc', r). re_match [Lit CHR ''-'', Dd] r acc')
               (alts Dm (pad2 m @ CHR ''-'' # pad2 d) acc)
             = Some (set_field Dd d (set_field Dm m acc), [])"
    by (rule first_some_take1) (simp del: re_match.simps add: rest)
  then show ?thesis by (simp del: alts.simps)
qed

lemma re_match_iso:
  assumes "y < 10000" and "1 \<le> m" and "m \<le> 12" and "1 \<le> d" and "d \<le> 31"
  shows "re_match [DY, Lit CHR ''-'', Dm, Lit CHR ''-'', Dd]
           (pad4 y @ CHR ''-'' # pad2 m @ CHR ''-'' # pad2 d) acc
           = Some (set_field Dd d (set_field Dm m (set_field DY y acc)), [])"
proof -
  have r3: "re_match [Lit CHR ''-'', Dm, Lit CHR ''-'', Dd] (CHR ''-'' # pad2 m @ CHR ''-'' # pad2 d) acc'
              = Some (set_field Dd d (set_field Dm m acc'), [])" for acc'
  proof -
    have "re_match [Lit CHR ''-'', Dm, Lit CHR ''-'', Dd] (CHR ''-'' # pad2 m @ CHR ''-'' # pad2 d) acc'
            = re_match [Dm, Lit CHR ''-'', Dd] (pad2 m @ CHR ''-'' # pad2 d) acc'"
      by (subst re_match.simps(2))
         (simp del: re_match.simps alts.simps first_some.simps add: alts_dash first_some_single)
    then show ?thesis using re_match_month_day[OF assms(2-5), of acc'] by simp
  qed
  have "alts DY (pad4 y @ CHR ''-'' # pad2 m @ CHR ''-'' # pad2 d) acc
          = [(set_field DY y acc, CHR ''-'' # pad2 m @ CHR ''-'' # pad2 d)]"
    by (rule alts_year[OF assms(1)])
  then have "re_match [DY, Lit CHR ''-'', Dm, Lit CHR ''-'', Dd]
               (pad4 y @ CHR ''-'' # pad2 m @ CHR ''-'' # pad2 d) acc
             = re_match [Lit CHR ''-'', Dm, Lit CHR ''-'', Dd] (CHR ''-'' # pad2 m @ CHR ''-'' # pad2 d)
                 (set_field DY y acc)"
    by (subst re_match.simps(2))
       (simp del: re_match.simps alts.simps first_some.simps add: first_some_single)
  then show ?thesis by (simp only: r3)
qed

lemma compile_iso:
  "compile_format ''%Y-%m-%d'' = [DY, Lit CHR ''-'', Dm, Lit CHR ''-'', Dd]"
  by code_simp

lemma days_in_month_le: "days_in_month y m \<le> 31"
  by (simp add: days_in_month_def)

lemma strptime_strftime:
  assumes "valid_date dt"
  shows "strptime (strftime True dt) ''%Y-%m-%d'' = Some dt"
proof -
  obtain y m d where dt: "dt = (y, m, d)" by (cases dt)
  with assms have b: "y < 10000" "1 \<le> m" "m \<le> 12" "1 \<le> d" "d \<le> 31"
    using days_in_month_le[of y m] by auto
  have "re_match (compile_format ''%Y-%m-%d'') (strftime True dt) (1900, 1, 1) = Some (dt, [])"
    using re_match_iso[OF b, of "(1900, 1, 1)"] dt by (simp only: compile_iso strftime.simps) simp
  with assms show ?thesis by (simp add: strptime_def)
qed

lemma strip_id:
  assumes "s \<noteq> []" and "\<not> isspace (hd s)" and "\<not> isspace (last s)"
  shows "strip s = s"
proof -
  have "dropWhile isspace s = s" using assms(1,2) by (cases s) simp_all
  moreover have "dropWhile isspace (rev s) = rev s"
    using assms(1,3) by (cases "rev s") (simp_all add: hd_rev[symmetric])
  ultimately show ?thesis by (simp add: strip_def)
qed

lemma strftime_shape:
  "strftime True (y, m, d)
     = [digit (y div 1000), digit (y div 100), digit (y div 10), digit y, CHR ''-'',
        digit (m div 10), digit m, CHR ''-'', digit (d div 10), digit d]"
  by (simp add: pad4_def pad2_def)

lemma strip_strftime: "strip (strftime True dt) = strftime True dt"
proof -
  obtain y m d where dt: "dt = (y, m, d)" by (cases dt)
  show ?thesis unfolding dt strftime_shape by (rule strip_id) (simp_all add: digit_plain)
qed

lemma is_ymd_strftime: "is_ymd (strftime True dt)"
proof -
  obtain y m d where dt: "dt = (y, m, d)" by (cases dt)
  show ?thesis unfolding dt strftime_shape by (simp add: is_ymd_def digit_is_digit)
qed

lemma strftime_not_absent:
  "strftime True dt \<noteq> []" "lower (strftime True dt) \<notin> set [''nan'', ''none'', ''null'']"
proof -
  obtain y m d where dt: "dt = (y, m, d)" by (cases dt)
  show "strftime True dt \<noteq> []" unfolding dt strftime_shape by simp
  have "length (lower (strftime True dt)) = 10" unfolding dt strftime_shape by (simp add: lower_def)
  then show "lower (strftime True dt) \<notin> set [''nan'', ''none'', ''null'']" by auto
qed

lemma dropWhile_full:
  assumes "length (dropWhile P xs) = length xs"
  shows "dropWhile P xs = xs"
proof (cases xs)
  case Nil
  then show ?thesis by simp
next
  case (Cons a list)
  show ?thesis
  proof (cases "P a")
    case True
    have "length (dropWhile P list) \<le> length list" by (rule length_dropWhile_le)
    with assms Cons True show ?thesis by simp
  next
    case False
    with Cons show ?thesis by simp
  qed
qed

lemma ten_chars:
  assumes "length (strftime pads dt) = 10"
  shows "strftime pads dt = strftime True dt"
proof (cases pads)
  case True
  then show ?thesis by simp
next
  case False
  obtain y m d where dt: "dt = (y, m, d)" by (cases dt)
  from assms False dt
  have "length (dropWhile (\<lambda>c. c = CHR ''0'') (pad4 y)) = length (pad4 y)"
    by (simp add: pad4_def pad2_def)
  then have "dropWhile (\<lambda>c. c = CHR ''0'') (pad4 y) = pad4 y" by (rule dropWhile_full)
  with False dt show ?thesis by simp
qed

lemma padded_ten_chars: "length (strftime True dt) = 10"
proof -
  obtain y m d where dt: "dt = (y, m, d)" by (cases dt)
  show ?thesis unfolding dt strftime_shape by simp
qed

lemma normalize_fixed:
  assumes "valid_date dt" and "strftime (pads_year env) dt = strftime True dt"
  shows "normalize_date env (strftime True dt) = Some (strftime True dt)"
proof -
  have "try_formats (strftime True dt) fmts = Some dt"
    using strptime_strftime[OF assms(1)] by (simp add: fmts_def)
  then show ?thesis
    using strftime_not_absent[of dt] assms(2)
    by (simp add: normalize_date_def strip_strftime del: set_simps strftime.simps)
qed

lemma strptime_valid: "strptime s f = Some dt \<Longrightarrow> valid_date dt"
  by (auto simp: strptime_def split: option.splits if_splits)

lemma try_formats_valid: "try_formats s fs = Some dt \<Longrightarrow> valid_date dt"
  by (induction fs) (auto split: option.splits dest: strptime_valid)

lemma normalize_some:
  assumes "normalize_date env s = Some r" and "\<forall>x d. fromisoformat env x = Some d \<longrightarrow> valid_date d"
  shows "\<exists>dt. valid_date dt \<and> r = strftime (pads_year env) dt"
proof (cases "try_formats (strip s) fmts")
  case (Some dt)
  with assms(1) have "r = strftime (pads_year env) dt"
    by (simp add: normalize_date_def split: if_splits)
  with try_formats_valid[OF Some] show ?thesis by blast
next
  case None
  with assms(1) obtain dt where "fromisoformat env (strip s) = Some dt"
    and "r = strftime (pads_year env) dt"
    by (auto simp: normalize_date_def split: if_splits option.splits)
  with assms(2) show ?thesis by blast
qed

lemma normalize_absent:
  assumes "lower (strip s) \<in> set [[], ''nan'', ''none'', ''null'']"
  shows "normalize_date env s = None"
proof -
  from assms have "strip s = [] \<or> lower (strip s) \<in> set [''nan'', ''none'', ''null'']"
    by (auto simp: lower_def)
  then show ?thesis by (auto simp: normalize_date_def)
qed

text \<open>
  Where the normalisation works. Whatever \<^verbatim>\<open>datetime.fromisoformat\<close> does, as long
  as the dates it returns are dates of the calendar: a result of ten characters is of
  the form yyyy-mm-dd and \<^verbatim>\<open>normalize_date\<close> maps it to itself; every result has ten
  characters where \<^verbatim>\<open>strftime\<close> pads the year; and an input that is, after trimming
  and up to case, empty or one of nan, none and null has no result (and no error: the
  function is total).
\<close>

theorem normalize_date_ten_chars:
  assumes "\<forall>x d. fromisoformat env x = Some d \<longrightarrow> valid_date d"
  shows "(normalize_date env s = Some r
            \<longrightarrow> (pads_year env \<longrightarrow> length r = 10)
                \<and> (length r = 10 \<longrightarrow> normalize_date env r = Some r \<and> is_ymd r))
       \<and> (lower (strip s) \<in> set [[], ''nan'', ''none'', ''null'']
            \<longrightarrow> normalize_date env s = None)"
proof (intro conjI impI)
  assume "normalize_date env s = Some r" and "pads_year env"
  from normalize_some[OF this(1) assms] this(2) show "length r = 10"
    by (auto simp: padded_ten_chars simp del: strftime.simps)
next
  assume n: "normalize_date env s = Some r" and l: "length r = 10"
  from normalize_some[OF n assms] obtain dt where
    dt: "valid_date dt" "r = strftime (pads_year env) dt"
    by blast
  from l dt(2) have "length (strftime (pads_year env) dt) = 10" by simp
  then have eq: "strftime (pads_year env) dt = strftime True dt" by (rule ten_chars)
  with dt show "normalize_date env r = Some r" by (simp add: normalize_fixed del: strftime.simps)
  from eq dt show "is_ymd r" by (simp add: is_ymd_strftime del: strftime.simps)
next
  assume "lower (strip s) \<in> set [[], ''nan'', ''none'', ''null'']"
  then show "normalize_date env s = None" by (rule normalize_absent)
qed

lemma normalize_date_examples:
  "normalize_date env_padding '' 9 aug 2025 '' = Some ''2025-08-09''"
  "normalize_date env_padding ''20250809'' = Some ''2025-08-09''"
  "normalize_date env_padding ''0999-01-01'' = Some ''0999-01-01''"
  "normalize_date env0 ''13/02/2025'' = Some ''2025-02-13''"
  "normalize_date env0 '' NaN '' = None"
  by code_simp+

text \<open>
  C6 fails on the code where \<^verbatim>\<open>strftime\<close> does not pad the year (CPython on Linux
  with glibc, before the release that pads the year itself). The input 0999-01-01 is
  read by the first format as a date of the year 999 and written back as 999-01-01:
  the result is not of the form yyyy-mm-dd, and no format reads it again, so
  normalising it a second time gives no result.
\<close>

theorem short_year_not_normalized:
  "\<not> pads_year env0
   \<and> normalize_date env0 ''0999-01-01'' = Some ''999-01-01''
   \<and> \<not> is_ymd ''999-01-01''
   \<and> normalize_date env0 ''999-01-01'' = None"
  by code_simp

end
